theory Spec2Isabelle
  imports Complex_Main "HOL-Library.Sublist" "HOL-Library.Multiset"
begin

section \<open>JavaScript numbers\<close>

text \<open>
  A JavaScript number is modelled as an exact rational, one of the two infinities, or
  NaN.  Finite arithmetic is exact (no rounding, no overflow) and there is a single
  zero, which behaves as \<open>+0\<close> when it divides.  Comparisons with NaN are false, as in
  the language.
\<close>

datatype jsnum = NaN | NegInf | Fin rat | PosInf

fun num_lt :: "jsnum \<Rightarrow> jsnum \<Rightarrow> bool" where
  "num_lt NaN b = False"
| "num_lt a NaN = False"
| "num_lt PosInf b = False"
| "num_lt a NegInf = False"
| "num_lt NegInf b = True"
| "num_lt (Fin a) (Fin b) = (a < b)"
| "num_lt (Fin a) PosInf = True"

definition num_le :: "jsnum \<Rightarrow> jsnum \<Rightarrow> bool" where
  "num_le a b = (a \<noteq> NaN \<and> b \<noteq> NaN \<and> (a = b \<or> num_lt a b))"

definition num_gt :: "jsnum \<Rightarrow> jsnum \<Rightarrow> bool" where
  "num_gt a b = num_lt b a"


fun num_neg :: "jsnum \<Rightarrow> jsnum" where
  "num_neg NaN = NaN"
| "num_neg NegInf = PosInf"
| "num_neg (Fin a) = Fin (- a)"
| "num_neg PosInf = NegInf"

fun num_add :: "jsnum \<Rightarrow> jsnum \<Rightarrow> jsnum" where
  "num_add NaN b = NaN"
| "num_add a NaN = NaN"
| "num_add (Fin a) (Fin b) = Fin (a + b)"
| "num_add PosInf NegInf = NaN"
| "num_add NegInf PosInf = NaN"
| "num_add PosInf b = PosInf"
| "num_add NegInf b = NegInf"
| "num_add (Fin a) b = b"

definition num_sub :: "jsnum \<Rightarrow> jsnum \<Rightarrow> jsnum" where
  "num_sub a b = num_add a (num_neg b)"

fun is_neg :: "jsnum \<Rightarrow> bool" where
  "is_neg NegInf = True"
| "is_neg (Fin a) = (a < 0)"
| "is_neg a = False"

definition signed_inf :: "bool \<Rightarrow> jsnum" where
  "signed_inf positive = (if positive then PosInf else NegInf)"

fun num_mul :: "jsnum \<Rightarrow> jsnum \<Rightarrow> jsnum" where
  "num_mul NaN b = NaN"
| "num_mul a NaN = NaN"
| "num_mul (Fin a) (Fin b) = Fin (a * b)"
| "num_mul a b = (if a = Fin 0 \<or> b = Fin 0 then NaN else signed_inf (is_neg a = is_neg b))"

fun num_div :: "jsnum \<Rightarrow> jsnum \<Rightarrow> jsnum" where
  "num_div NaN b = NaN"
| "num_div a NaN = NaN"
| "num_div (Fin a) (Fin b) =
     (if b = 0 then (if a = 0 then NaN else signed_inf (0 < a)) else Fin (a / b))"
| "num_div (Fin a) b = Fin 0"
| "num_div a (Fin b) = signed_inf (is_neg a = (b < 0))"
| "num_div a b = NaN"

fun num_abs :: "jsnum \<Rightarrow> jsnum" where
  "num_abs NaN = NaN"
| "num_abs NegInf = PosInf"
| "num_abs (Fin a) = Fin \<bar>a\<bar>"
| "num_abs PosInf = PosInf"

text \<open>\<open>Math.max\<close> of two numbers: NaN if either is NaN.\<close>

definition num_max :: "jsnum \<Rightarrow> jsnum \<Rightarrow> jsnum" where
  "num_max a b = (if a = NaN \<or> b = NaN then NaN else if num_lt a b then b else a)"

fun num_floor :: "jsnum \<Rightarrow> jsnum" where
  "num_floor (Fin a) = Fin (of_int \<lfloor>a\<rfloor>)"
| "num_floor a = a"

text \<open>A number is falsy when it is zero or NaN.\<close>

definition truthy_num :: "jsnum \<Rightarrow> bool" where
  "truthy_num n = (n \<noteq> NaN \<and> n \<noteq> Fin 0)"



section \<open>Parsed JSON and the coercions the program applies to it\<close>

text \<open>
  The uploader hands \<open>parseTrace\<close> the result of \<open>JSON.parse\<close>: a tree of
  null, booleans, numbers, strings, arrays and objects, in which no two objects are the
  same object.  An object is the list of its own properties, one entry per key.  A
  property that is absent reads as \<open>undefined\<close>, the \<open>None\<close> of
  \<open>jsval\<close>.
\<close>

datatype json =
  JNull
| JBool bool
| JNum jsnum
| JStr string
| JArr "json list"
| JObj "(string \<times> json) list"

type_synonym jsval = "json option"

datatype error = FormatError | TypeError

text \<open>
  Reading a property of \<open>null\<close> throws a TypeError.  The property names this
  program reads (\<open>traceEvents\<close>, \<open>pid\<close>, \<open>tid\<close>, \<open>ts\<close>,
  \<open>dur\<close>, \<open>ph\<close>, \<open>name\<close>, \<open>cat\<close>, \<open>args\<close>, \<open>id\<close>)
  are defined on no prototype of a JSON value, so they are found among an object's own
  properties or not at all.
\<close>

fun props :: "json \<Rightarrow> error + (string \<Rightarrow> jsval)" where
  "props JNull = Inl TypeError"
| "props (JObj fs) = Inr (map_of fs)"
| "props v = Inr (\<lambda>k. None)"

fun truthy_json :: "json \<Rightarrow> bool" where
  "truthy_json JNull = False"
| "truthy_json (JBool b) = b"
| "truthy_json (JNum n) = truthy_num n"
| "truthy_json (JStr s) = (s \<noteq> [])"
| "truthy_json (JArr xs) = True"
| "truthy_json (JObj fs) = True"

fun truthy :: "jsval \<Rightarrow> bool" where
  "truthy None = False"
| "truthy (Some v) = truthy_json v"

text \<open>
  Two functions of the JavaScript engine are parameters of the model: the parser of
  numeric strings behind \<open>Number(s)\<close> and the printer of numbers behind
  \<open>`${n}`\<close>.
\<close>

record builtins =
  StringToNumber :: "string \<Rightarrow> jsnum"
  NumberToString :: "jsnum \<Rightarrow> string"

text \<open>
  \<open>ToString\<close> of a JSON value.  An array is joined with commas, null elements
  printing as the empty string.  An object prints through \<open>Object.prototype.toString\<close>
  unless it has an own property \<open>toString\<close>, which after \<open>JSON.parse\<close>
  is never callable: then the conversion to a primitive throws a TypeError.
\<close>

fun to_str :: "builtins \<Rightarrow> json \<Rightarrow> error + string"
  and join_elems :: "builtins \<Rightarrow> json list \<Rightarrow> error + string" where
  "to_str B JNull = Inr ''null''"
| "to_str B (JBool b) = Inr (if b then ''true'' else ''false'')"
| "to_str B (JNum n) = Inr (NumberToString B n)"
| "to_str B (JStr s) = Inr s"
| "to_str B (JObj fs) =
     (if map_of fs ''toString'' = None then Inr ''[object Object]'' else Inl TypeError)"
| "to_str B (JArr xs) = join_elems B xs"
| "join_elems B [] = Inr []"
| "join_elems B (x # xs) =
     (case (if x = JNull then Inr [] else to_str B x) of
        Inl e \<Rightarrow> Inl e
      | Inr s \<Rightarrow>
          (if xs = [] then Inr s
           else (case join_elems B xs of Inl e \<Rightarrow> Inl e | Inr r \<Rightarrow> Inr (s @ '','' @ r))))"

text \<open>The substitution \<open>${v}\<close> of a template literal.\<close>

fun template_str :: "builtins \<Rightarrow> jsval \<Rightarrow> error + string" where
  "template_str B None = Inr ''undefined''"
| "template_str B (Some v) = to_str B v"

text \<open>\<open>Number(v)\<close>.\<close>

fun ToNumber :: "builtins \<Rightarrow> jsval \<Rightarrow> error + jsnum" where
  "ToNumber B None = Inr NaN"
| "ToNumber B (Some JNull) = Inr (Fin 0)"
| "ToNumber B (Some (JBool b)) = Inr (Fin (if b then 1 else 0))"
| "ToNumber B (Some (JNum n)) = Inr n"
| "ToNumber B (Some (JStr s)) = Inr (StringToNumber B s)"
| "ToNumber B (Some v) =
     (case to_str B v of Inl e \<Rightarrow> Inl e | Inr s \<Rightarrow> Inr (StringToNumber B s))"


section \<open>The trace model (TraceModel.ts)\<close>

text \<open>
  A stored event carries the fields of the interface \<open>TraceEvent\<close>; \<open>ts\<close>
  and \<open>dur\<close> hold the numbers \<open>parseTrace\<close> writes back into the record,
  the other input fields hold whatever the input had.  JavaScript maps keep insertion
  order, so a \<open>Map\<close> is a list of key and value pairs.
\<close>

record trace_event =
  name :: jsval
  cat :: jsval
  ph :: jsval
  ts :: jsnum
  pid :: jsval
  tid :: jsval
  dur :: jsnum
  args :: jsval
  ident :: jsval
  depth :: "nat option"

record thread =
  thread_tid :: jsval
  thread_name :: json
  events :: "trace_event list"
  maxDepth :: "nat option"

record process =
  process_pid :: jsval
  process_name :: json
  threads :: "(jsval \<times> thread) list"

record trace_model =
  processes :: "(jsval \<times> process) list"
  minTime :: jsnum
  maxTime :: jsnum

text \<open>
  Map keys are compared by SameValueZero: primitives by value, objects and arrays by
  identity.  In a parsed JSON tree every object is a different object, so an object or
  array key equals no key looked up later.
\<close>

fun same_value_zero :: "jsval \<Rightarrow> jsval \<Rightarrow> bool" where
  "same_value_zero (Some (JArr xs)) b = False"
| "same_value_zero (Some (JObj fs)) b = False"
| "same_value_zero a b = (a = b)"

fun map_get :: "(jsval \<times> 'v) list \<Rightarrow> jsval \<Rightarrow> 'v option" where
  "map_get [] k = None"
| "map_get ((k', v) # kvs) k = (if same_value_zero k' k then Some v else map_get kvs k)"

fun map_set :: "jsval \<Rightarrow> 'v \<Rightarrow> (jsval \<times> 'v) list \<Rightarrow> (jsval \<times> 'v) list" where
  "map_set k v [] = [(k, v)]"
| "map_set k v ((k', v') # kvs) =
     (if same_value_zero k' k then (k', v) # kvs else (k', v') # map_set k v kvs)"

text \<open>\<open>event.args?.name\<close>, and the value a naming event carries when it is truthy.\<close>

fun args_name :: "jsval \<Rightarrow> jsval" where
  "args_name (Some (JObj fs)) = map_of fs ''name''"
| "args_name a = None"

definition naming_value :: "trace_event \<Rightarrow> json option" where
  "naming_value e =
     (case args_name (args e) of
        None \<Rightarrow> None
      | Some v \<Rightarrow> (if truthy_json v then Some v else None))"

text \<open>The end of an event: \<open>dur ? ts + dur : ts\<close>.\<close>

definition end_time :: "trace_event \<Rightarrow> jsnum" where
  "end_time e = (if truthy_num (dur e) then num_add (ts e) (dur e) else ts e)"

text \<open>
  Lines 48 to 58 of the loop body: the skip test and the coercion of \<open>ts\<close> and
  \<open>dur\<close>.  \<open>None\<close> is the \<open>continue\<close>.
\<close>

definition read_event :: "builtins \<Rightarrow> json \<Rightarrow> error + trace_event option" where
  "read_event B ev =
     (case props ev of
        Inl e \<Rightarrow> Inl e
      | Inr p \<Rightarrow>
          (if \<not> truthy (p ''pid'') \<and> \<not> truthy (p ''tid'') then Inr None
           else
             (case ToNumber B (p ''ts'') of
                Inl e \<Rightarrow> Inl e
              | Inr t \<Rightarrow>
                  (case (if truthy (p ''dur'') then ToNumber B (p ''dur'') else Inr (Fin 0)) of
                     Inl e \<Rightarrow> Inl e
                   | Inr d \<Rightarrow>
                       Inr (Some \<lparr>name = p ''name'', cat = p ''cat'', ph = p ''ph'', ts = t,
                                  pid = p ''pid'', tid = p ''tid'', dur = d, args = p ''args'',
                                  ident = p ''id'', depth = None\<rparr>)))))"

text \<open>Lines 60 to 90: time bounds, get or create the process and the thread, route.\<close>

definition get_or_create_process ::
  "builtins \<Rightarrow> (jsval \<times> process) list \<Rightarrow> jsval \<Rightarrow> error + process" where
  "get_or_create_process B ps k =
     (case map_get ps k of
        Some p \<Rightarrow> Inr p
      | None \<Rightarrow>
          (case template_str B k of
             Inl e \<Rightarrow> Inl e
           | Inr s \<Rightarrow>
               Inr \<lparr>process_pid = k, process_name = JStr (''Process '' @ s), threads = []\<rparr>))"

definition get_or_create_thread ::
  "builtins \<Rightarrow> (jsval \<times> thread) list \<Rightarrow> jsval \<Rightarrow> error + thread" where
  "get_or_create_thread B ths k =
     (case map_get ths k of
        Some t \<Rightarrow> Inr t
      | None \<Rightarrow>
          (case template_str B k of
             Inl e \<Rightarrow> Inl e
           | Inr s \<Rightarrow>
               Inr \<lparr>thread_tid = k, thread_name = JStr (''Thread '' @ s), events = [],
                    maxDepth = None\<rparr>))"

definition route_event :: "trace_event \<Rightarrow> process \<Rightarrow> thread \<Rightarrow> process \<times> thread" where
  "route_event e p t =
     (if ph e = Some (JStr ''M'') then
        (case (if name e = Some (JStr ''process_name'') then naming_value e else None) of
           Some v \<Rightarrow> (p\<lparr>process_name := v\<rparr>, t)
         | None \<Rightarrow>
             (case (if name e = Some (JStr ''thread_name'') then naming_value e else None) of
                Some v \<Rightarrow> (p, t\<lparr>thread_name := v\<rparr>)
              | None \<Rightarrow> (p, t)))
      else (p, t\<lparr>events := events t @ [e]\<rparr>))"

definition place_event :: "builtins \<Rightarrow> trace_model \<Rightarrow> trace_event \<Rightarrow> error + trace_model" where
  "place_event B m e =
     (let minTime' = (if num_lt (ts e) (minTime m) then ts e else minTime m);
          endTime = end_time e;
          maxTime' = (if num_gt endTime (maxTime m) then endTime else maxTime m)
      in
        (case get_or_create_process B (processes m) (pid e) of
           Inl err \<Rightarrow> Inl err
         | Inr p \<Rightarrow>
             (case get_or_create_thread B (threads p) (tid e) of
                Inl err \<Rightarrow> Inl err
              | Inr t \<Rightarrow>
                  (case route_event e p t of
                     (p', t') \<Rightarrow>
                       Inr \<lparr>processes =
                              map_set (pid e) (p'\<lparr>threads := map_set (tid e) t' (threads p')\<rparr>)
                                (processes m),
                            minTime = minTime', maxTime = maxTime'\<rparr>))))"

definition ingest_event :: "builtins \<Rightarrow> trace_model \<Rightarrow> json \<Rightarrow> error + trace_model" where
  "ingest_event B m ev =
     (case read_event B ev of
        Inl e \<Rightarrow> Inl e
      | Inr None \<Rightarrow> Inr m
      | Inr (Some e) \<Rightarrow> place_event B m e)"

fun ingest_all :: "builtins \<Rightarrow> trace_model \<Rightarrow> json list \<Rightarrow> error + trace_model" where
  "ingest_all B m [] = Inr m"
| "ingest_all B m (ev # evs) =
     (case ingest_event B m ev of Inl e \<Rightarrow> Inl e | Inr m' \<Rightarrow> ingest_all B m' evs)"

text \<open>
  \<open>Array.prototype.sort\<close> with a comparison function.  The engine's algorithm is
  not part of the repository.  ECMAScript reads a NaN result of the comparison as zero
  and, when the comparison function is consistent, fixes the result: the sorted
  rearrangement in which elements that compare equal keep their order.  The insertion
  sort below computes it: \<open>x\<close> moves behind \<open>y\<close> exactly when
  \<open>cmp x y > 0\<close>.  When the comparison function is not consistent (for
  \<open>by_ts\<close>: when some start time is NaN) ECMAScript leaves the order to the
  engine, and the statements about the order of a thread's events assume that none is.
\<close>

fun insert_sorted :: "('a \<Rightarrow> 'a \<Rightarrow> jsnum) \<Rightarrow> 'a \<Rightarrow> 'a list \<Rightarrow> 'a list" where
  "insert_sorted cmp x [] = [x]"
| "insert_sorted cmp x (y # ys) =
     (if num_gt (cmp x y) (Fin 0) then y # insert_sorted cmp x ys else x # y # ys)"

fun array_sort :: "('a \<Rightarrow> 'a \<Rightarrow> jsnum) \<Rightarrow> 'a list \<Rightarrow> 'a list" where
  "array_sort cmp [] = []"
| "array_sort cmp (x # xs) = insert_sorted cmp x (array_sort cmp xs)"

text \<open>The comparison function of line 96: \<open>(a, b) => a.ts - b.ts\<close>.\<close>

definition by_ts :: "trace_event \<Rightarrow> trace_event \<Rightarrow> jsnum" where
  "by_ts a b = num_sub (ts a) (ts b)"

text \<open>
  Lines 105 to 111: the backward loop over the stack.  The first argument is the
  start time of the current event, the second is \<open>i + 1\<close>; \<open>splice1 i\<close> is
  \<open>stack.splice(i, 1)\<close>.  The top of the stack is the end of the list.
\<close>

definition splice1 :: "nat \<Rightarrow> 'a list \<Rightarrow> 'a list" where
  "splice1 i xs = take i xs @ drop (Suc i) xs"

fun remove_ended :: "jsnum \<Rightarrow> nat \<Rightarrow> trace_event list \<Rightarrow> trace_event list" where
  "remove_ended t 0 stack = stack"
| "remove_ended t (Suc i) stack =
     remove_ended t i (if num_le (end_time (stack ! i)) t then splice1 i stack else stack)"

text \<open>Lines 102 to 126: the loop over the sorted events of one thread.\<close>

fun assign_depths ::
  "trace_event list \<Rightarrow> nat \<Rightarrow> trace_event list \<Rightarrow> trace_event list \<times> nat" where
  "assign_depths stack md [] = ([], md)"
| "assign_depths stack md (e # es) =
     (let stack' = remove_ended (ts e) (length stack) stack;
          e' = e\<lparr>depth := Some (length stack')\<rparr>
      in (case assign_depths (stack' @ [e']) (max md (length stack')) es of
            (out, md') \<Rightarrow> (e' # out, md')))"

definition finish_thread :: "thread \<Rightarrow> thread" where
  "finish_thread t =
     (case assign_depths [] 0 (array_sort by_ts (events t)) of
        (evs, md) \<Rightarrow> t\<lparr>events := evs, maxDepth := Some md\<rparr>)"

definition finish_process :: "process \<Rightarrow> process" where
  "finish_process p = p\<lparr>threads := map (\<lambda>(k, t). (k, finish_thread t)) (threads p)\<rparr>"

definition finish_model :: "trace_model \<Rightarrow> trace_model" where
  "finish_model m = m\<lparr>processes := map (\<lambda>(k, p). (k, finish_process p)) (processes m)\<rparr>"

text \<open>Lines 36 to 42: the shape of the input.\<close>

fun events_of :: "json \<Rightarrow> error + json list" where
  "events_of (JArr xs) = Inr xs"
| "events_of (JObj fs) =
     (case map_of fs ''traceEvents'' of Some (JArr xs) \<Rightarrow> Inr xs | _ \<Rightarrow> Inl FormatError)"
| "events_of v = Inl FormatError"

definition empty_model :: trace_model where
  "empty_model = \<lparr>processes = [], minTime = PosInf, maxTime = NegInf\<rparr>"

definition parseTrace :: "builtins \<Rightarrow> json \<Rightarrow> error + trace_model" where
  "parseTrace B data =
     (case events_of data of
        Inl e \<Rightarrow> Inl e
      | Inr evs \<Rightarrow>
          (case ingest_all B empty_model evs of
             Inl e \<Rightarrow> Inl e
           | Inr m \<Rightarrow> Inr (finish_model m)))"


section \<open>The navigation state (Timeline.tsx)\<close>

record view_state =
  visibleStartTime :: jsnum
  visibleEndTime :: jsnum
  scrollTop :: jsnum
  isDragging :: bool
  lastMouseX :: jsnum
  lastMouseY :: jsnum
  dragStartX :: jsnum
  dragStartY :: jsnum

text \<open>Lines 16 to 25: the view state a Timeline starts with.\<close>

definition initial_view_state :: "trace_model \<Rightarrow> view_state" where
  "initial_view_state model =
     \<lparr>visibleStartTime = minTime model, visibleEndTime = maxTime model, scrollTop = Fin 0,
      isDragging = False, lastMouseX = Fin 0, lastMouseY = Fin 0, dragStartX = Fin 0,
      dragStartY = Fin 0\<rparr>"

text \<open>
  Lines 70 to 99: the held keys, applied once per frame.  \<open>range\<close> is read once,
  before any key is applied.
\<close>

definition zoomSpeed :: jsnum where
  "zoomSpeed = Fin (5 / 100)"

definition zoom_about_center :: "jsnum \<Rightarrow> view_state \<Rightarrow> view_state" where
  "zoom_about_center newRange st =
     (let center = num_div (num_add (visibleStartTime st) (visibleEndTime st)) (Fin 2)
      in st\<lparr>visibleStartTime := num_sub center (num_div newRange (Fin 2)),
             visibleEndTime := num_add center (num_div newRange (Fin 2))\<rparr>)"

definition shift_view :: "jsnum \<Rightarrow> view_state \<Rightarrow> view_state" where
  "shift_view shift st =
     st\<lparr>visibleStartTime := num_add (visibleStartTime st) shift,
        visibleEndTime := num_add (visibleEndTime st) shift\<rparr>"

definition apply_keys :: "string set \<Rightarrow> view_state \<Rightarrow> view_state" where
  "apply_keys keysPressed st =
     (let range = num_sub (visibleEndTime st) (visibleStartTime st);
          st1 = (if ''w'' \<in> keysPressed
                 then zoom_about_center (num_mul range (num_sub (Fin 1) zoomSpeed)) st else st);
          st2 = (if ''s'' \<in> keysPressed
                 then zoom_about_center (num_mul range (num_add (Fin 1) zoomSpeed)) st1 else st1);
          st3 = (if ''a'' \<in> keysPressed
                 then shift_view (num_neg (num_mul range (Fin (2 / 100)))) st2 else st2);
          st4 = (if ''d'' \<in> keysPressed
                 then shift_view (num_mul range (Fin (2 / 100))) st3 else st3)
      in st4)"

text \<open>Lines 121 to 153: the wheel.\<close>

record wheel_event =
  ctrlKey :: bool
  metaKey :: bool
  deltaX :: jsnum
  deltaY :: jsnum
  offsetX :: jsnum
  clientWidth :: jsnum

definition handleWheel :: "wheel_event \<Rightarrow> view_state \<Rightarrow> view_state" where
  "handleWheel e st =
     (let range = num_sub (visibleEndTime st) (visibleStartTime st);
          width = clientWidth e
      in
        if ctrlKey e \<or> metaKey e then
          (let zoomFactor = num_add (Fin 1) (num_mul (num_abs (deltaY e)) (Fin (1 / 1000)));
               mouseX = offsetX e;
               timeAtMouse = num_add (visibleStartTime st) (num_mul (num_div mouseX width) range);
               newRange = (if num_gt (deltaY e) (Fin 0) then num_mul range zoomFactor
                           else num_div range zoomFactor);
               start' = num_sub timeAtMouse (num_mul (num_div mouseX width) newRange)
           in st\<lparr>visibleStartTime := start', visibleEndTime := num_add start' newRange\<rparr>)
        else if num_gt (num_abs (deltaX e)) (num_abs (deltaY e)) then
          shift_view (num_mul (num_div (deltaX e) width) range) st
        else st\<lparr>scrollTop := num_max (Fin 0) (num_add (scrollTop st) (deltaY e))\<rparr>)"


section \<open>The layout walk of the renderer (CanvasRenderer.ts)\<close>

definition LABEL_WIDTH :: jsnum where "LABEL_WIDTH = Fin 220"






text \<open>\<open>Math.ceil\<close>.\<close>

fun num_ceil :: "jsnum \<Rightarrow> jsnum" where
  "num_ceil (Fin a) = Fin (of_int \<lceil>a\<rceil>)"
| "num_ceil a = a"





text \<open>
  Painting goes to the canvas of the browser.  The model keeps what is painted and
  where, and every place where painting can throw: the colour hash of an event name,
  and the conversion to a string of a text handed to \<open>fillText\<close> or
  \<open>measureText\<close>.  The calls that set sizes, styles and paths take numbers and
  constant strings and do not throw.

  One event of a track, lines 119 to 161: \<open>None\<close> when the event is culled.
\<close>

record slice =
  slice_event :: trace_event
  slice_x :: jsnum
  slice_y :: jsnum
  slice_w :: jsnum
  slice_colour :: string
  slice_text :: "string option"



datatype row = HeaderRow jsval | TrackRow jsval jsval

text \<open>
  What is painted for a row: nothing when it is culled, the header with its label, the
  track with its label and slices, or what was painted of the row when painting threw.
\<close>

datatype painted =
  Culled
| PaintedHeader string
| PaintedTrack string "slice list"
| Interrupted "slice list"





text \<open>
  \<open>drawGrid\<close>, lines 165 to 192.  \<open>Math.log10\<close> and \<open>Math.pow\<close> are
  functions of the engine.  So is the addition of the loop: in doubles \<open>t += step\<close>
  can round back to \<open>t\<close>, and then the loop never ends.  The loop is therefore a
  partial function over the engine's addition, \<open>None\<close> when it does not end; its
  value is the list of the lines drawn, each from the top of the canvas down to
  \<open>height\<close>.
\<close>

record engine_math =
  Math_log10 :: "jsnum \<Rightarrow> jsnum"
  Math_pow :: "jsnum \<Rightarrow> jsnum \<Rightarrow> jsnum"
  double_add :: "jsnum \<Rightarrow> jsnum \<Rightarrow> jsnum"

partial_function (option) grid_lines ::
  "(jsnum \<Rightarrow> jsnum \<Rightarrow> jsnum) \<Rightarrow> (jsnum \<Rightarrow> jsnum) \<Rightarrow> jsnum \<Rightarrow> jsnum \<Rightarrow> jsnum \<Rightarrow> jsnum list option"
  where
  "grid_lines add toPixel stop step t =
     (if num_le t stop then
        Option.bind (grid_lines add toPixel stop step (add t step))
          (\<lambda>rest. Some (if num_gt (toPixel t) LABEL_WIDTH then toPixel t # rest else rest))
      else Some [])"

definition drawGrid ::
  "engine_math \<Rightarrow> jsnum \<Rightarrow> jsnum \<Rightarrow> jsnum \<Rightarrow> (jsnum \<Rightarrow> jsnum) \<Rightarrow> jsnum list option" where
  "drawGrid E start stop height toPixel =
     (let range = num_sub stop start;
          idealStep = num_div range (Fin 10);
          magnitude = Math_pow E (Fin 10) (num_floor (Math_log10 E idealStep));
          step = num_mul (num_ceil (num_div idealStep magnitude)) magnitude;
          firstLine = num_mul (num_ceil (num_div start step)) step
      in grid_lines (double_add E) toPixel stop step firstLine)"









section \<open>Notions used in the statements\<close>

text \<open>
  A record is skipped by line 50 when reading its \<open>pid\<close> and \<open>tid\<close> succeeds
  and both are falsy: absent, \<open>null\<close>, \<open>0\<close>, NaN, \<open>false\<close> or the
  empty string.
\<close>

definition skipped :: "json \<Rightarrow> bool" where
  "skipped r =
     (case props r of
        Inl e \<Rightarrow> False
      | Inr p \<Rightarrow> \<not> truthy (p ''pid'') \<and> \<not> truthy (p ''tid''))"

text \<open>The events of a list of threads, of a list of processes and of a model.\<close>

definition thread_events :: "(jsval \<times> thread) list \<Rightarrow> trace_event list" where
  "thread_events ths = concat (map (\<lambda>(k, t). events t) ths)"

definition process_events :: "(jsval \<times> process) list \<Rightarrow> trace_event list" where
  "process_events ps = concat (map (\<lambda>(k, p). thread_events (threads p)) ps)"

definition all_events :: "trace_model \<Rightarrow> trace_event list" where
  "all_events m = process_events (processes m)"

definition undepth :: "trace_event \<Rightarrow> trace_event" where
  "undepth e = e\<lparr>depth := None\<rparr>"

definition is_metadata :: "trace_event \<Rightarrow> bool" where
  "is_metadata e = (ph e = Some (JStr ''M''))"

text \<open>
  The records of the input that are neither skipped nor of Metadata phase, as the loop
  reads them, in input order.
\<close>

definition stored_of :: "builtins \<Rightarrow> json \<Rightarrow> trace_event list" where
  "stored_of B r =
     (case read_event B r of
        Inr (Some e) \<Rightarrow> (if is_metadata e then [] else [e])
      | _ \<Rightarrow> [])"

definition stored_input :: "builtins \<Rightarrow> json list \<Rightarrow> trace_event list" where
  "stored_input B xs = concat (map (stored_of B) xs)"


text \<open>
  The engine functions used to run the examples: \<open>0\<close> and \<open>1\<close> print as
  ECMAScript prints them, and no example converts a string to a number.
\<close>

definition example_builtins :: builtins where
  "example_builtins =
     \<lparr>StringToNumber = (\<lambda>s. NaN), NumberToString = (\<lambda>n. if n = Fin 0 then ''0'' else ''1'')\<rparr>"

text \<open>
  A record every conversion of which succeeds: it is not \<open>null\<close>, and its
  \<open>pid\<close>, \<open>tid\<close>, \<open>ts\<close> and \<open>dur\<close> are absent or scalars.
\<close>

fun is_scalar :: "jsval \<Rightarrow> bool" where
  "is_scalar (Some (JArr xs)) = False"
| "is_scalar (Some (JObj fs)) = False"
| "is_scalar v = True"

definition plain_record :: "json \<Rightarrow> bool" where
  "plain_record r =
     (case props r of
        Inl e \<Rightarrow> False
      | Inr p \<Rightarrow> is_scalar (p ''pid'') \<and> is_scalar (p ''tid'') \<and>
                 is_scalar (p ''ts'') \<and> is_scalar (p ''dur''))"


text \<open>
  The depth pass in the words of the specification: before an event is processed,
  every stack entry whose end time (start plus duration, or start if it has no
  duration) is at most the start of the event is removed; the depth of the event is
  the size of the stack that remains; the event is pushed; \<open>maxDepth\<close> becomes the
  larger of itself and that depth.  An event has a duration when its \<open>dur\<close> is a
  number other than zero.
\<close>

definition has_duration :: "trace_event \<Rightarrow> bool" where
  "has_duration e = (dur e \<noteq> NaN \<and> dur e \<noteq> Fin 0)"

definition spec_end_time :: "trace_event \<Rightarrow> jsnum" where
  "spec_end_time e = (if has_duration e then num_add (ts e) (dur e) else ts e)"

fun spec_depth_pass ::
  "trace_event list \<Rightarrow> nat \<Rightarrow> trace_event list \<Rightarrow> trace_event list \<times> nat" where
  "spec_depth_pass stack md [] = ([], md)"
| "spec_depth_pass stack md (e # es) =
     (let remaining = filter (\<lambda>s. \<not> num_le (spec_end_time s) (ts e)) stack;
          d = length remaining;
          e' = e\<lparr>depth := Some d\<rparr>
      in (case spec_depth_pass (remaining @ [e']) (max md d) es of
            (out, md') \<Rightarrow> (e' # out, md')))"

text \<open>The two inputs of the scenarios: spans on thread 1 of process 1.\<close>

definition complete_event :: "string \<Rightarrow> rat \<Rightarrow> rat \<Rightarrow> json" where
  "complete_event nm start duration =
     JObj [(''name'', JStr nm), (''ph'', JStr ''X''), (''ts'', JNum (Fin start)),
           (''dur'', JNum (Fin duration)), (''pid'', JNum (Fin 1)), (''tid'', JNum (Fin 1))]"

definition stored_complete :: "string \<Rightarrow> rat \<Rightarrow> rat \<Rightarrow> nat \<Rightarrow> trace_event" where
  "stored_complete nm start duration d =
     \<lparr>name = Some (JStr nm), cat = None, ph = Some (JStr ''X''), ts = Fin start,
      pid = Some (JNum (Fin 1)), tid = Some (JNum (Fin 1)), dur = Fin duration, args = None,
      ident = None, depth = Some d\<rparr>"

definition one_thread_model ::
  "builtins \<Rightarrow> trace_event list \<Rightarrow> nat \<Rightarrow> jsnum \<Rightarrow> jsnum \<Rightarrow> trace_model" where
  "one_thread_model B evs md lo hi =
     \<lparr>processes =
        [(Some (JNum (Fin 1)),
          \<lparr>process_pid = Some (JNum (Fin 1)),
           process_name = JStr (''Process '' @ NumberToString B (Fin 1)),
           threads =
             [(Some (JNum (Fin 1)),
               \<lparr>thread_tid = Some (JNum (Fin 1)),
                thread_name = JStr (''Thread '' @ NumberToString B (Fin 1)),
                events = evs, maxDepth = Some md\<rparr>)]\<rparr>)],
      minTime = lo, maxTime = hi\<rparr>"


text \<open>A property of the event list of every thread of a list of processes.\<close>

definition each_thread ::
  "(jsval \<Rightarrow> jsval \<Rightarrow> trace_event list \<Rightarrow> bool) \<Rightarrow> (jsval \<times> process) list \<Rightarrow> bool" where
  "each_thread R ps =
     (\<forall>(pk, p) \<in> set ps. \<forall>(tk, t) \<in> set (threads p). R pk tk (events t))"




text \<open>An event stands in the thread of its own \<open>pid\<close> and \<open>tid\<close> and is not Metadata.\<close>

definition at_home :: "jsval \<Rightarrow> jsval \<Rightarrow> trace_event \<Rightarrow> bool" where
  "at_home pk tk e = (pid e = pk \<and> tid e = tk \<and> \<not> is_metadata e)"

text \<open>The naming record of the scenario in the specification.\<close>

definition renderer_record :: json where
  "renderer_record =
     JObj [(''name'', JStr ''process_name''), (''ph'', JStr ''M''), (''pid'', JNum (Fin 1)),
           (''tid'', JNum (Fin 0)), (''args'', JObj [(''name'', JStr ''Renderer'')])]"

definition renderer_model :: "builtins \<Rightarrow> trace_model" where
  "renderer_model B =
     \<lparr>processes =
        [(Some (JNum (Fin 1)),
          \<lparr>process_pid = Some (JNum (Fin 1)), process_name = JStr ''Renderer'',
           threads =
             [(Some (JNum (Fin 0)),
               \<lparr>thread_tid = Some (JNum (Fin 0)),
                thread_name = JStr (''Thread '' @ NumberToString B (Fin 0)),
                events = [], maxDepth = Some 0\<rparr>),
              (Some (JNum (Fin 1)),
               \<lparr>thread_tid = Some (JNum (Fin 1)),
                thread_name = JStr (''Thread '' @ NumberToString B (Fin 1)),
                events = [stored_complete ''A'' 0 100 0], maxDepth = Some 0\<rparr>)]\<rparr>)],
      minTime = Fin 0, maxTime = Fin 100\<rparr>"





text \<open>The rows of a rendering with their top coordinates, painted or not.\<close>

definition row_tops :: "(row \<times> jsnum \<times> painted) list \<Rightarrow> (row \<times> jsnum) list" where
  "row_tops rows = map (\<lambda>(r, y, p). (r, y)) rows"










section \<open>Maps with SameValueZero keys\<close>

lemma svz_eq: "same_value_zero a b \<Longrightarrow> a = b"
  by (cases "(a, b)" rule: same_value_zero.cases) auto

lemma map_get_mem: "map_get kvs k = Some v \<Longrightarrow> (k, v) \<in> set kvs"
  by (induction kvs) (auto split: if_splits dest: svz_eq)

lemma map_set_mem:
  "(k', v') \<in> set (map_set k v kvs) \<Longrightarrow> (k', v') \<in> set kvs \<or> (k' = k \<and> v' = v)"
  by (induction kvs) (auto split: if_splits dest: svz_eq)

lemma map_set_has: "(k, v) \<in> set (map_set k v kvs)"
  by (induction kvs) (auto dest: svz_eq)

lemma map_set_Some:
  "map_get kvs k = Some v \<Longrightarrow>
   \<exists>pre post. kvs = pre @ (k, v) # post \<and> map_set k v' kvs = pre @ (k, v') # post"
proof (induction kvs)
  case Nil
  then show ?case by simp
next
  case (Cons a kvs)
  obtain k0 v0 where a: "a = (k0, v0)" by (cases a)
  show ?case
  proof (cases "same_value_zero k0 k")
    case True
    with Cons.prems a have "k0 = k" "v0 = v" by (auto dest: svz_eq)
    with True a show ?thesis by (intro exI[of _ "[]"] exI[of _ kvs]) simp
  next
    case False
    with Cons a obtain pre post where
      "kvs = pre @ (k, v) # post" "map_set k v' kvs = pre @ (k, v') # post" by auto
    with False a show ?thesis
      by (intro exI[of _ "(k0, v0) # pre"] exI[of _ post]) simp
  qed
qed

lemma map_set_None: "map_get kvs k = None \<Longrightarrow> map_set k v' kvs = kvs @ [(k, v')]"
  by (induction kvs) (auto split: if_splits)


section \<open>The loop of parseTrace\<close>

lemma ingest_event_skipped: "skipped r \<Longrightarrow> ingest_event B m r = Inr m"
  by (auto simp: skipped_def ingest_event_def read_event_def split: sum.splits)

lemma ingest_all_append:
  "ingest_all B m (xs @ ys) =
     (case ingest_all B m xs of Inl e \<Rightarrow> Inl e | Inr m' \<Rightarrow> ingest_all B m' ys)"
  by (induction xs arbitrary: m) (auto split: sum.splits)

lemma ingest_all_skipped: "\<forall>r \<in> set xs. skipped r \<Longrightarrow> ingest_all B m xs = Inr m"
  by (induction xs) (auto simp: ingest_event_skipped)

lemma finish_empty: "finish_model empty_model = empty_model"
  by (simp add: finish_model_def empty_model_def)

lemma to_str_err: "to_str B v = Inl e \<Longrightarrow> e = TypeError"
  and join_err: "join_elems B vs = Inl e \<Longrightarrow> e = TypeError"
  by (induction B v and B vs rule: to_str_join_elems.induct) (auto split: if_splits sum.splits)

lemma ToNumber_err: "ToNumber B v = Inl e \<Longrightarrow> e = TypeError"
  by (induction B v rule: ToNumber.induct)
    (auto split: sum.splits if_splits dest: to_str_err join_err)

lemma template_err: "template_str B v = Inl e \<Longrightarrow> e = TypeError"
  by (cases v) (auto dest: to_str_err)

lemma props_err: "props v = Inl e \<Longrightarrow> e = TypeError"
  by (cases v) auto

lemma read_event_err: "read_event B v = Inl e \<Longrightarrow> e = TypeError"
  by (auto simp: read_event_def split: sum.splits if_splits dest: props_err ToNumber_err)

lemma place_event_err: "place_event B m ev = Inl e \<Longrightarrow> e = TypeError"
  by (auto simp: place_event_def get_or_create_process_def get_or_create_thread_def Let_def
      split: sum.splits option.splits prod.splits dest: template_err)

lemma ingest_event_err: "ingest_event B m v = Inl e \<Longrightarrow> e = TypeError"
  by (auto simp: ingest_event_def split: sum.splits option.splits
      dest: read_event_err place_event_err)

lemma ingest_all_err: "ingest_all B m vs = Inl e \<Longrightarrow> e = TypeError"
  by (induction vs arbitrary: m) (auto split: sum.splits dest: ingest_event_err)

lemma events_of_err: "events_of d = Inl e \<Longrightarrow> e = FormatError"
  by (cases d) (auto split: option.splits json.splits)

lemma parse_format_error:
  "parseTrace B d = Inl FormatError \<longleftrightarrow> events_of d = Inl FormatError"
  by (auto simp: parseTrace_def split: sum.splits dest: ingest_all_err events_of_err)

lemma thread_events_simps [simp]:
  "thread_events [] = []"
  "thread_events ((k, t) # ys) = events t @ thread_events ys"
  "thread_events (xs @ ys) = thread_events xs @ thread_events ys"
  by (simp_all add: thread_events_def)

lemma process_events_simps [simp]:
  "process_events [] = []"
  "process_events ((k, p) # ps) = thread_events (threads p) @ process_events ps"
  "process_events (xs @ ys) = process_events xs @ process_events ys"
  by (simp_all add: process_events_def)

lemma stored_input_simps [simp]:
  "stored_input B [] = []"
  "stored_input B (r # xs) = stored_of B r @ stored_input B xs"
  "stored_input B (xs @ ys) = stored_input B xs @ stored_input B ys"
  by (simp_all add: stored_input_def)

lemma route_event_shape:
  "route_event e p t = (p', t') \<Longrightarrow>
     threads p' = threads p \<and> process_pid p' = process_pid p \<and>
     thread_tid t' = thread_tid t \<and> maxDepth t' = maxDepth t \<and>
     events t' = (if is_metadata e then events t else events t @ [e])"
  by (auto simp: route_event_def is_metadata_def split: if_splits option.splits)

lemma place_event_shape:
  assumes "place_event B m e = Inr m'"
  obtains p t p' t' where
    "get_or_create_process B (processes m) (pid e) = Inr p"
    "get_or_create_thread B (threads p) (tid e) = Inr t"
    "route_event e p t = (p', t')"
    "processes m' =
       map_set (pid e) (p'\<lparr>threads := map_set (tid e) t' (threads p)\<rparr>) (processes m)"
    "minTime m' = (if num_lt (ts e) (minTime m) then ts e else minTime m)"
    "maxTime m' = (if num_gt (end_time e) (maxTime m) then end_time e else maxTime m)"
proof -
  from assms obtain p where p: "get_or_create_process B (processes m) (pid e) = Inr p"
    by (auto simp: place_event_def Let_def split: sum.splits)
  from assms p obtain t where t: "get_or_create_thread B (threads p) (tid e) = Inr t"
    by (auto simp: place_event_def Let_def split: sum.splits)
  obtain p' t' where r: "route_event e p t = (p', t')" by (cases "route_event e p t")
  then have "threads p' = threads p" by (simp add: route_event_shape)
  with assms p t r that show thesis
    by (auto simp: place_event_def Let_def)
qed

lemma thread_step_mset:
  assumes "get_or_create_thread B ths k = Inr t"
  shows "mset (thread_events (map_set k t' ths)) + mset (events t) =
         mset (thread_events ths) + mset (events t')"
proof (cases "map_get ths k")
  case None
  with assms have "events t = []"
    by (auto simp: get_or_create_thread_def split: sum.splits)
  with None show ?thesis by (simp add: map_set_None)
next
  case (Some t0)
  with assms have "map_get ths k = Some t" by (simp add: get_or_create_thread_def)
  from map_set_Some[OF this, of t'] obtain pre post where
    a: "ths = pre @ (k, t) # post" and b: "map_set k t' ths = pre @ (k, t') # post"
    by blast
  show ?thesis unfolding b unfolding a by simp
qed

lemma process_step_mset:
  assumes "get_or_create_process B ps k = Inr p"
  shows "mset (process_events (map_set k p' ps)) + mset (thread_events (threads p)) =
         mset (process_events ps) + mset (thread_events (threads p'))"
proof (cases "map_get ps k")
  case None
  with assms have "threads p = []"
    by (auto simp: get_or_create_process_def split: sum.splits)
  with None show ?thesis by (simp add: map_set_None)
next
  case (Some p0)
  with assms have "map_get ps k = Some p" by (simp add: get_or_create_process_def)
  from map_set_Some[OF this, of p'] obtain pre post where
    a: "ps = pre @ (k, p) # post" and b: "map_set k p' ps = pre @ (k, p') # post"
    by blast
  show ?thesis unfolding b unfolding a by simp
qed

lemma place_event_mset:
  assumes "place_event B m e = Inr m'"
  shows "mset (all_events m') =
         mset (all_events m) + (if is_metadata e then {#} else {#e#})"
proof -
  from assms obtain p t p' t' where
    p: "get_or_create_process B (processes m) (pid e) = Inr p" and
    t: "get_or_create_thread B (threads p) (tid e) = Inr t" and
    r: "route_event e p t = (p', t')" and
    m': "processes m' =
       map_set (pid e) (p'\<lparr>threads := map_set (tid e) t' (threads p)\<rparr>) (processes m)"
    by (rule place_event_shape)
  let ?new = "if is_metadata e then {#} else {#e#}"
  from r have ev: "mset (events t') = mset (events t) + ?new"
    by (simp add: route_event_shape)
  from thread_step_mset[OF t, of t']
  have "mset (thread_events (map_set (tid e) t' (threads p))) + mset (events t) =
        mset (thread_events (threads p)) + mset (events t) + ?new"
    by (simp add: ev)
  then have th: "mset (thread_events (map_set (tid e) t' (threads p))) =
        mset (thread_events (threads p)) + ?new"
    by simp
  from process_step_mset[OF p, of "p'\<lparr>threads := map_set (tid e) t' (threads p)\<rparr>"]
  have "mset (all_events m') + mset (thread_events (threads p)) =
        mset (all_events m) + mset (thread_events (threads p)) + ?new"
    by (simp add: all_events_def m' th)
  then show ?thesis by simp
qed

lemma ingest_event_mset:
  assumes "ingest_event B m r = Inr m1"
  shows "mset (all_events m1) = mset (all_events m) + mset (stored_of B r)"
proof (cases "read_event B r")
  case (Inl a)
  with assms show ?thesis by (simp add: ingest_event_def)
next
  case (Inr o1)
  show ?thesis
  proof (cases o1)
    case None
    with Inr assms show ?thesis by (simp add: ingest_event_def stored_of_def)
  next
    case (Some e)
    with Inr assms have "place_event B m e = Inr m1" by (simp add: ingest_event_def)
    from place_event_mset[OF this] Inr Some show ?thesis by (simp add: stored_of_def)
  qed
qed

lemma ingest_all_mset:
  "ingest_all B m xs = Inr m' \<Longrightarrow>
   mset (all_events m') = mset (all_events m) + mset (stored_input B xs)"
proof (induction xs arbitrary: m)
  case Nil
  then show ?case by simp
next
  case (Cons r xs)
  from Cons.prems obtain m1 where
    m1: "ingest_event B m r = Inr m1" and rest: "ingest_all B m1 xs = Inr m'"
    by (auto split: sum.splits)
  have "mset (all_events m') = mset (all_events m1) + mset (stored_input B xs)"
    by (rule Cons.IH[OF rest])
  also have "mset (all_events m1) = mset (all_events m) + mset (stored_of B r)"
    by (rule ingest_event_mset[OF m1])
  finally show ?case by simp
qed

lemma events_of_shape:
  "events_of d = Inr xs \<longleftrightarrow>
     (d = JArr xs \<or> (\<exists>fs. d = JObj fs \<and> map_of fs ''traceEvents'' = Some (JArr xs)))"
  by (cases d) (auto split: option.splits json.splits)

lemma events_of_FormatError:
  "events_of d = Inl FormatError \<longleftrightarrow>
     (\<nexists>xs. d = JArr xs) \<and> (\<nexists>fs xs. d = JObj fs \<and> map_of fs ''traceEvents'' = Some (JArr xs))"
  by (cases d) (auto split: option.splits json.splits)

lemma scalar_ToNumber: "is_scalar v \<Longrightarrow> \<exists>n. ToNumber B v = Inr n"
  by (cases "(B, v)" rule: ToNumber.cases) auto

lemma scalar_template: "is_scalar v \<Longrightarrow> \<exists>s. template_str B v = Inr s"
  by (cases v rule: is_scalar.cases) auto

lemma plain_read_event:
  assumes "plain_record r"
  shows "read_event B r = Inr None \<or>
         (\<exists>e. read_event B r = Inr (Some e) \<and> is_scalar (pid e) \<and> is_scalar (tid e))"
proof -
  from assms obtain p where p: "props r = Inr p"
    and sc: "is_scalar (p ''pid'')" "is_scalar (p ''tid'')" "is_scalar (p ''ts'')"
      "is_scalar (p ''dur'')"
    by (auto simp: plain_record_def split: sum.splits)
  from scalar_ToNumber[OF sc(3), of B] obtain t where t: "ToNumber B (p ''ts'') = Inr t" by blast
  from scalar_ToNumber[OF sc(4), of B] obtain d where d: "ToNumber B (p ''dur'') = Inr d" by blast
  show ?thesis using p sc(1,2) t d by (simp add: read_event_def)
qed

lemma scalar_place_event:
  assumes "is_scalar (pid e)" "is_scalar (tid e)"
  shows "\<exists>m'. place_event B m e = Inr m'"
proof -
  from scalar_template[OF assms(1), of B] obtain s1 where s1: "template_str B (pid e) = Inr s1"
    by blast
  from scalar_template[OF assms(2), of B] obtain s2 where s2: "template_str B (tid e) = Inr s2"
    by blast
  from s1 have "\<exists>p. get_or_create_process B (processes m) (pid e) = Inr p"
    by (cases "map_get (processes m) (pid e)") (simp_all add: get_or_create_process_def)
  then obtain p where p: "get_or_create_process B (processes m) (pid e) = Inr p" ..
  from s2 have "\<exists>t. get_or_create_thread B (threads p) (tid e) = Inr t"
    by (cases "map_get (threads p) (tid e)") (simp_all add: get_or_create_thread_def)
  then obtain t where t: "get_or_create_thread B (threads p) (tid e) = Inr t" ..
  show ?thesis using p t by (simp add: place_event_def Let_def split: prod.splits)
qed

lemma plain_ingest_all:
  "\<forall>r \<in> set xs. plain_record r \<Longrightarrow> \<exists>m'. ingest_all B m xs = Inr m'"
proof (induction xs arbitrary: m)
  case Nil
  then show ?case by simp
next
  case (Cons r xs)
  then have "plain_record r" by simp
  from plain_read_event[OF this, of B] have "\<exists>m1. ingest_event B m r = Inr m1"
  proof
    assume "read_event B r = Inr None"
    then show ?thesis by (simp add: ingest_event_def)
  next
    assume "\<exists>e. read_event B r = Inr (Some e) \<and> is_scalar (pid e) \<and> is_scalar (tid e)"
    then obtain e where "read_event B r = Inr (Some e)" "is_scalar (pid e)" "is_scalar (tid e)"
      by blast
    with scalar_place_event[of e B m] show ?thesis by (simp add: ingest_event_def)
  qed
  then obtain m1 where "ingest_event B m r = Inr m1" ..
  with Cons show ?case by simp
qed


section \<open>C3: the shape of the input\<close>

text \<open>
  C3, as amended.  \<open>parseTrace\<close> fails with FormatError exactly when the input is
  neither an array nor an object whose \<open>traceEvents\<close> is an array; the input
  \<open>{}\<close> yields FormatError; on an array, or an object with the \<open>traceEvents\<close>
  array, it returns a model whenever no element is \<open>null\<close> and no element's
  \<open>pid\<close>, \<open>tid\<close>, \<open>ts\<close> or \<open>dur\<close> is an object or an array.
\<close>

theorem parseTrace_FormatError:
  "(parseTrace B d = Inl FormatError \<longleftrightarrow>
      (\<nexists>xs. d = JArr xs) \<and>
      (\<nexists>fs xs. d = JObj fs \<and> map_of fs ''traceEvents'' = Some (JArr xs))) \<and>
   parseTrace B (JObj []) = Inl FormatError \<and>
   ((d = JArr xs \<or> (\<exists>fs. d = JObj fs \<and> map_of fs ''traceEvents'' = Some (JArr xs))) \<and>
    (\<forall>r \<in> set xs. plain_record r) \<longrightarrow> (\<exists>m. parseTrace B d = Inr m))"
proof (intro conjI impI)
  show "parseTrace B d = Inl FormatError \<longleftrightarrow>
      (\<nexists>xs. d = JArr xs) \<and>
      (\<nexists>fs xs. d = JObj fs \<and> map_of fs ''traceEvents'' = Some (JArr xs))"
    by (simp only: parse_format_error events_of_FormatError)
  show "parseTrace B (JObj []) = Inl FormatError"
    by (simp add: parseTrace_def)
next
  assume a: "(d = JArr xs \<or> (\<exists>fs. d = JObj fs \<and> map_of fs ''traceEvents'' = Some (JArr xs))) \<and>
    (\<forall>r \<in> set xs. plain_record r)"
  then have ev: "events_of d = Inr xs" by (simp only: events_of_shape)
  from a plain_ingest_all[of xs B empty_model] obtain m where
    "ingest_all B empty_model xs = Inr m" by blast
  with ev show "\<exists>m. parseTrace B d = Inr m" by (simp add: parseTrace_def)
qed

text \<open>
  C3, the claim as stated: an array input never fails.  It fails on the array
  \<open>[null]\<close>: reading \<open>pid\<close> of the element throws a TypeError.
\<close>

theorem parseTrace_null_element_counterexample:
  "parseTrace example_builtins (JArr [JNull]) = Inl TypeError"
  by (simp add: parseTrace_def ingest_event_def read_event_def)


theorem parseTrace_FormatError_witness:
  "parseTrace example_builtins (JStr ''trace'') = Inl FormatError \<and>
   parseTrace example_builtins (JObj []) = Inl FormatError \<and>
   plain_record (JObj [(''pid'', JNum (Fin 1)), (''tid'', JNum (Fin 1)), (''ts'', JNum (Fin 7))]) \<and>
   (\<exists>m. parseTrace example_builtins
          (JArr [JObj [(''pid'', JNum (Fin 1)), (''tid'', JNum (Fin 1)), (''ts'', JNum (Fin 7))]])
        = Inr m)"
  using parseTrace_FormatError[of example_builtins "JStr ''trace''"]
    parseTrace_FormatError[of example_builtins
      "JArr [JObj [(''pid'', JNum (Fin 1)), (''tid'', JNum (Fin 1)), (''ts'', JNum (Fin 7))]]"
      "[JObj [(''pid'', JNum (Fin 1)), (''tid'', JNum (Fin 1)), (''ts'', JNum (Fin 7))]]"]
  by (simp add: plain_record_def)


section \<open>C6: records without process and thread\<close>

text \<open>
  C6.  A record whose \<open>pid\<close> and \<open>tid\<close> are both absent or falsy is dropped:
  the loop body leaves the model as it is, and the result of \<open>parseTrace\<close> is the
  result for the input without the record, so the record is in no event list, creates
  no process or thread, and leaves \<open>minTime\<close> and \<open>maxTime\<close> alone.
\<close>

theorem skipped_record_dropped:
  assumes "skipped r" "events_of d = Inr (xs @ r # ys)" "events_of d' = Inr (xs @ ys)"
  shows "ingest_event B m r = Inr m \<and> parseTrace B d = parseTrace B d'"
  using assms
  by (simp add: parseTrace_def ingest_all_append ingest_event_skipped split: sum.splits)

theorem skipped_record_dropped_witness:
  "skipped (JObj [(''name'', JStr ''idle''), (''ts'', JNum (Fin 5)), (''pid'', JNum (Fin 0))]) \<and>
   parseTrace example_builtins
     (JArr [JObj [(''pid'', JNum (Fin 1)), (''tid'', JNum (Fin 1)), (''ts'', JNum (Fin 9))],
            JObj [(''name'', JStr ''idle''), (''ts'', JNum (Fin 5)), (''pid'', JNum (Fin 0))]]) =
   parseTrace example_builtins
     (JArr [JObj [(''pid'', JNum (Fin 1)), (''tid'', JNum (Fin 1)), (''ts'', JNum (Fin 9))]])"
  using skipped_record_dropped[of
      "JObj [(''name'', JStr ''idle''), (''ts'', JNum (Fin 5)), (''pid'', JNum (Fin 0))]"
      "JArr [JObj [(''pid'', JNum (Fin 1)), (''tid'', JNum (Fin 1)), (''ts'', JNum (Fin 9))],
             JObj [(''name'', JStr ''idle''), (''ts'', JNum (Fin 5)), (''pid'', JNum (Fin 0))]]"
      "[JObj [(''pid'', JNum (Fin 1)), (''tid'', JNum (Fin 1)), (''ts'', JNum (Fin 9))]]"
      "[]"
      "JArr [JObj [(''pid'', JNum (Fin 1)), (''tid'', JNum (Fin 1)), (''ts'', JNum (Fin 9))]]"
      example_builtins]
  by (simp add: skipped_def truthy_num_def)


section \<open>C10: nothing to ingest\<close>

text \<open>
  C10.  On the empty array, and on an input all of whose records are skipped,
  \<open>parseTrace\<close> does not fail and returns the model with no process,
  \<open>minTime = +Infinity\<close> and \<open>maxTime = -Infinity\<close>; the Timeline starts with
  this interval as its visible range.
\<close>

theorem parseTrace_nothing_ingested:
  "parseTrace B (JArr []) = Inr \<lparr>processes = [], minTime = PosInf, maxTime = NegInf\<rparr> \<and>
   ((d = JArr xs \<or> (\<exists>fs. d = JObj fs \<and> map_of fs ''traceEvents'' = Some (JArr xs))) \<and>
    (\<forall>r \<in> set xs. skipped r) \<longrightarrow>
      parseTrace B d = Inr \<lparr>processes = [], minTime = PosInf, maxTime = NegInf\<rparr>) \<and>
   visibleStartTime
     (initial_view_state \<lparr>processes = [], minTime = PosInf, maxTime = NegInf\<rparr>) = PosInf \<and>
   visibleEndTime
     (initial_view_state \<lparr>processes = [], minTime = PosInf, maxTime = NegInf\<rparr>) = NegInf"
proof (intro conjI impI)
  show "parseTrace B (JArr []) = Inr \<lparr>processes = [], minTime = PosInf, maxTime = NegInf\<rparr>"
    by (simp add: parseTrace_def finish_model_def empty_model_def)
next
  assume a: "(d = JArr xs \<or> (\<exists>fs. d = JObj fs \<and> map_of fs ''traceEvents'' = Some (JArr xs))) \<and>
    (\<forall>r \<in> set xs. skipped r)"
  then have "events_of d = Inr xs" by (simp only: events_of_shape)
  moreover from a have "ingest_all B empty_model xs = Inr empty_model"
    by (simp add: ingest_all_skipped)
  ultimately have "parseTrace B d = Inr (finish_model empty_model)"
    by (simp add: parseTrace_def)
  then show "parseTrace B d = Inr \<lparr>processes = [], minTime = PosInf, maxTime = NegInf\<rparr>"
    by (simp add: finish_model_def empty_model_def)
qed (simp_all add: initial_view_state_def)

theorem parseTrace_nothing_ingested_witness:
  "skipped (JObj [(''name'', JStr ''idle'')]) \<and>
   skipped (JObj [(''pid'', JNum (Fin 0)), (''tid'', JNull), (''ts'', JNum (Fin 3))]) \<and>
   parseTrace example_builtins
     (JObj [(''traceEvents'',
        JArr [JObj [(''name'', JStr ''idle'')],
              JObj [(''pid'', JNum (Fin 0)), (''tid'', JNull), (''ts'', JNum (Fin 3))]])]) =
   Inr \<lparr>processes = [], minTime = PosInf, maxTime = NegInf\<rparr>"
  using parseTrace_nothing_ingested[of example_builtins
      "JObj [(''traceEvents'',
        JArr [JObj [(''name'', JStr ''idle'')],
              JObj [(''pid'', JNum (Fin 0)), (''tid'', JNull), (''ts'', JNum (Fin 3))]])]"
      "[JObj [(''name'', JStr ''idle'')],
        JObj [(''pid'', JNum (Fin 0)), (''tid'', JNull), (''ts'', JNum (Fin 3))]]"]
  by (simp add: skipped_def truthy_num_def)

section \<open>C8: the held zoom keys keep the centre\<close>

lemma zoom_about_center_Fin:
  assumes "visibleStartTime st = Fin s" "visibleEndTime st = Fin e"
  shows "visibleStartTime (zoom_about_center (Fin r) st) = Fin ((s + e) / 2 - r / 2) \<and>
         visibleEndTime (zoom_about_center (Fin r) st) = Fin ((s + e) / 2 + r / 2)"
  using assms by (simp add: zoom_about_center_def num_sub_def Let_def)

text \<open>
  C8.  On a view state with finite bounds, a frame in which only the zoom keys
  \<open>w\<close> and \<open>s\<close> are held (either, both or none, and no pan key) leaves the
  centre of the visible range where it was: \<open>(start' + end') / 2 = (start + end) / 2\<close>
  in exact arithmetic.
\<close>

theorem key_zoom_preserves_center:
  assumes "visibleStartTime st = Fin s" "visibleEndTime st = Fin e"
    and "''a'' \<notin> keysPressed" "''d'' \<notin> keysPressed"
  shows "\<exists>s' e'. visibleStartTime (apply_keys keysPressed st) = Fin s' \<and>
           visibleEndTime (apply_keys keysPressed st) = Fin e' \<and>
           (s' + e') / 2 = (s + e) / 2"
proof -
  define r where "r = e - s"
  have range: "num_sub (visibleEndTime st) (visibleStartTime st) = Fin r"
    using assms(1,2) by (simp add: num_sub_def r_def)
  define st1 where "st1 = (if ''w'' \<in> keysPressed
      then zoom_about_center (num_mul (Fin r) (num_sub (Fin 1) zoomSpeed)) st else st)"
  have "\<exists>s1 e1. visibleStartTime st1 = Fin s1 \<and> visibleEndTime st1 = Fin e1 \<and>
          (s1 + e1) / 2 = (s + e) / 2"
    using zoom_about_center_Fin[OF assms(1,2), of "r * (1 - 5 / 100)"] assms(1,2)
    by (auto simp: st1_def zoomSpeed_def num_sub_def)
  then obtain s1 e1 where s1: "visibleStartTime st1 = Fin s1" "visibleEndTime st1 = Fin e1"
    and c1: "(s1 + e1) / 2 = (s + e) / 2" by blast
  define st2 where "st2 = (if ''s'' \<in> keysPressed
      then zoom_about_center (num_mul (Fin r) (num_add (Fin 1) zoomSpeed)) st1 else st1)"
  have "\<exists>s2 e2. visibleStartTime st2 = Fin s2 \<and> visibleEndTime st2 = Fin e2 \<and>
          (s2 + e2) / 2 = (s1 + e1) / 2"
    using zoom_about_center_Fin[OF s1, of "r * (1 + 5 / 100)"] s1
    by (auto simp: st2_def zoomSpeed_def)
  moreover have "apply_keys keysPressed st = st2"
    using assms(3,4) by (simp add: apply_keys_def Let_def range st1_def st2_def)
  ultimately show ?thesis using c1 by auto
qed

theorem key_zoom_preserves_center_witness:
  "visibleStartTime (apply_keys {''w''}
      \<lparr>visibleStartTime = Fin 0, visibleEndTime = Fin 100, scrollTop = Fin 0,
       isDragging = False, lastMouseX = Fin 0, lastMouseY = Fin 0, dragStartX = Fin 0,
       dragStartY = Fin 0\<rparr>) = Fin (5 / 2) \<and>
   (\<exists>s' e'. visibleStartTime (apply_keys {''w''}
      \<lparr>visibleStartTime = Fin 0, visibleEndTime = Fin 100, scrollTop = Fin 0,
       isDragging = False, lastMouseX = Fin 0, lastMouseY = Fin 0, dragStartX = Fin 0,
       dragStartY = Fin 0\<rparr>) = Fin s' \<and>
     visibleEndTime (apply_keys {''w''}
      \<lparr>visibleStartTime = Fin 0, visibleEndTime = Fin 100, scrollTop = Fin 0,
       isDragging = False, lastMouseX = Fin 0, lastMouseY = Fin 0, dragStartX = Fin 0,
       dragStartY = Fin 0\<rparr>) = Fin e' \<and> (s' + e') / 2 = (0 + 100) / 2)"
proof
  show "visibleStartTime (apply_keys {''w''}
      \<lparr>visibleStartTime = Fin 0, visibleEndTime = Fin 100, scrollTop = Fin 0,
       isDragging = False, lastMouseX = Fin 0, lastMouseY = Fin 0, dragStartX = Fin 0,
       dragStartY = Fin 0\<rparr>) = Fin (5 / 2)"
    by (simp add: apply_keys_def zoom_about_center_def zoomSpeed_def num_sub_def Let_def)
  show "\<exists>s' e'. visibleStartTime (apply_keys {''w''}
      \<lparr>visibleStartTime = Fin 0, visibleEndTime = Fin 100, scrollTop = Fin 0,
       isDragging = False, lastMouseX = Fin 0, lastMouseY = Fin 0, dragStartX = Fin 0,
       dragStartY = Fin 0\<rparr>) = Fin s' \<and>
     visibleEndTime (apply_keys {''w''}
      \<lparr>visibleStartTime = Fin 0, visibleEndTime = Fin 100, scrollTop = Fin 0,
       isDragging = False, lastMouseX = Fin 0, lastMouseY = Fin 0, dragStartX = Fin 0,
       dragStartY = Fin 0\<rparr>) = Fin e' \<and> (s' + e') / 2 = (0 + 100) / 2"
    by (rule key_zoom_preserves_center) simp_all
qed


section \<open>C7: the wheel zoom is anchored at the pointer\<close>

text \<open>
  C7.  On a view state with finite bounds, a wheel event with the zoom modifier held
  (Ctrl or Meta), a positive width and finite pointer offset and delta leaves the time
  under the pointer unchanged in exact arithmetic:
  \<open>start' + (mouseX / width) * (end' - start') = start + (mouseX / width) * (end - start)\<close>.
\<close>

theorem wheel_zoom_anchored:
  assumes "ctrlKey ev \<or> metaKey ev"
    and "clientWidth ev = Fin w" "0 < w" "offsetX ev = Fin x" "deltaY ev = Fin dy"
    and "visibleStartTime st = Fin s" "visibleEndTime st = Fin e"
  shows "\<exists>s' e'. visibleStartTime (handleWheel ev st) = Fin s' \<and>
           visibleEndTime (handleWheel ev st) = Fin e' \<and>
           s' + (x / w) * (e' - s') = s + (x / w) * (e - s)"
proof -
  define z where "z = 1 + \<bar>dy\<bar> * (1 / 1000)"
  have "0 \<le> \<bar>dy\<bar> * (1 / 1000)" by simp
  then have z: "z \<noteq> 0" unfolding z_def by linarith
  define nr where "nr = (if 0 < dy then (e - s) * z else (e - s) / z)"
  define s' where "s' = s + (x / w) * (e - s) - (x / w) * nr"
  have "visibleStartTime (handleWheel ev st) = Fin s' \<and>
        visibleEndTime (handleWheel ev st) = Fin (s' + nr)"
    using assms z
    by (simp add: handleWheel_def Let_def num_sub_def num_gt_def nr_def z_def s'_def)
  moreover have "s' + (x / w) * (s' + nr - s') = s + (x / w) * (e - s)"
    by (simp add: s'_def)
  ultimately show ?thesis by blast
qed

theorem wheel_zoom_anchored_witness:
  "\<exists>s' e'. visibleStartTime (handleWheel
        \<lparr>ctrlKey = True, metaKey = False, deltaX = Fin 0, deltaY = Fin (- 100),
         offsetX = Fin 200, clientWidth = Fin 800\<rparr>
        \<lparr>visibleStartTime = Fin 0, visibleEndTime = Fin 100, scrollTop = Fin 0,
         isDragging = False, lastMouseX = Fin 0, lastMouseY = Fin 0, dragStartX = Fin 0,
         dragStartY = Fin 0\<rparr>) = Fin s' \<and>
      visibleEndTime (handleWheel
        \<lparr>ctrlKey = True, metaKey = False, deltaX = Fin 0, deltaY = Fin (- 100),
         offsetX = Fin 200, clientWidth = Fin 800\<rparr>
        \<lparr>visibleStartTime = Fin 0, visibleEndTime = Fin 100, scrollTop = Fin 0,
         isDragging = False, lastMouseX = Fin 0, lastMouseY = Fin 0, dragStartX = Fin 0,
         dragStartY = Fin 0\<rparr>) = Fin e' \<and>
      s' + (200 / 800) * (e' - s') = 0 + (200 / 800) * (100 - 0)"
  by (rule wheel_zoom_anchored[where dy = "- 100"]) simp_all

section \<open>C1: the depth pass\<close>

lemma spec_end_time_eq: "spec_end_time e = end_time e"
  by (simp add: spec_end_time_def has_duration_def end_time_def truthy_num_def)

lemma remove_ended_filter:
  "n \<le> length stack \<Longrightarrow>
   remove_ended t n stack =
     filter (\<lambda>s. \<not> num_le (end_time s) t) (take n stack) @ drop n stack"
proof (induction n arbitrary: stack)
  case 0
  then show ?case by simp
next
  case (Suc i)
  then have i: "i < length stack" by simp
  show ?case
  proof (cases "num_le (end_time (stack ! i)) t")
    case True
    have "i \<le> length (splice1 i stack)" using i by (simp add: splice1_def)
    from Suc.IH[OF this] True i show ?thesis
      by (simp add: splice1_def take_Suc_conv_app_nth)
  next
    case False
    from Suc.IH[of stack] False i show ?thesis
      by (simp add: take_Suc_conv_app_nth Cons_nth_drop_Suc)
  qed
qed

lemma remove_ended_all:
  "remove_ended t (length stack) stack = filter (\<lambda>s. \<not> num_le (spec_end_time s) t) stack"
  by (simp add: remove_ended_filter spec_end_time_eq)

lemma assign_depths_spec: "assign_depths stack md es = spec_depth_pass stack md es"
  by (induction es arbitrary: stack md) (simp_all add: remove_ended_all Let_def)

lemma undepth_update: "undepth a = undepth b \<Longrightarrow> a\<lparr>depth := x\<rparr> = b\<lparr>depth := x\<rparr>"
  by (cases a, cases b) (simp add: undepth_def)

lemma undepth_fields:
  "undepth a = undepth b \<Longrightarrow> ts a = ts b \<and> spec_end_time a = spec_end_time b"
  by (cases a, cases b) (simp add: undepth_def spec_end_time_def has_duration_def)

lemma filter_undepth:
  assumes "map undepth xs = map undepth ys"
  shows "map undepth (filter (\<lambda>s. \<not> num_le (spec_end_time s) t) xs) =
         map undepth (filter (\<lambda>s. \<not> num_le (spec_end_time s) t) ys)"
  using assms
proof (induction xs arbitrary: ys)
  case Nil
  then show ?case by simp
next
  case (Cons x xs)
  then obtain y ys' where ys: "ys = y # ys'" "undepth x = undepth y"
    "map undepth xs = map undepth ys'" by (cases ys) auto
  with Cons.IH[of ys'] undepth_fields[of x y] show ?case by simp
qed

lemma spec_pass_undepth:
  "map undepth es1 = map undepth es2 \<Longrightarrow> map undepth st1 = map undepth st2 \<Longrightarrow>
   spec_depth_pass st1 md es1 = spec_depth_pass st2 md es2"
proof (induction es1 arbitrary: es2 st1 st2 md)
  case Nil
  then show ?case by simp
next
  case (Cons e1 r1)
  then obtain e2 r2 where es2: "es2 = e2 # r2" "undepth e1 = undepth e2"
    "map undepth r1 = map undepth r2" by (cases es2) auto
  let ?f1 = "filter (\<lambda>s. \<not> num_le (spec_end_time s) (ts e1)) st1"
  let ?f2 = "filter (\<lambda>s. \<not> num_le (spec_end_time s) (ts e1)) st2"
  have f: "map undepth ?f1 = map undepth ?f2" by (rule filter_undepth[OF Cons.prems(2)])
  then have len: "length ?f1 = length ?f2" by (metis length_map)
  have e: "e1\<lparr>depth := Some (length ?f1)\<rparr> = e2\<lparr>depth := Some (length ?f1)\<rparr>"
    by (rule undepth_update[OF es2(2)])
  have "spec_depth_pass (?f1 @ [e1\<lparr>depth := Some (length ?f1)\<rparr>]) (max md (length ?f1)) r1 =
        spec_depth_pass (?f2 @ [e1\<lparr>depth := Some (length ?f1)\<rparr>]) (max md (length ?f1)) r2"
    by (rule Cons.IH[OF es2(3)]) (simp add: f)
  with es2 e len undepth_fields[OF es2(2)] show ?case by (simp add: Let_def)
qed

lemma undepth_depth: "undepth (e\<lparr>depth := x\<rparr>) = undepth e"
  by (simp add: undepth_def)

lemma spec_pass_out:
  "map undepth (fst (spec_depth_pass st md es)) = map undepth es"
proof (induction es arbitrary: st md)
  case Nil
  then show ?case by simp
next
  case (Cons e es)
  let ?r = "filter (\<lambda>s. \<not> num_le (spec_end_time s) (ts e)) st"
  let ?e = "e\<lparr>depth := Some (length ?r)\<rparr>"
  obtain out md' where r: "spec_depth_pass (?r @ [?e]) (max md (length ?r)) es = (out, md')"
    by (cases "spec_depth_pass (?r @ [?e]) (max md (length ?r)) es")
  from Cons.IH[of "?r @ [?e]" "max md (length ?r)"] r have "map undepth out = map undepth es"
    by simp
  with r show ?case by (simp add: Let_def undepth_depth)
qed

lemma spec_pass_again:
  "spec_depth_pass [] 0 (fst (spec_depth_pass [] 0 es)) = spec_depth_pass [] 0 es"
  by (rule spec_pass_undepth) (simp_all add: spec_pass_out)

lemma finish_thread_spec:
  "finish_thread t =
     t\<lparr>events := fst (spec_depth_pass [] 0 (array_sort by_ts (events t))),
       maxDepth := Some (snd (spec_depth_pass [] 0 (array_sort by_ts (events t))))\<rparr>"
  by (simp add: finish_thread_def assign_depths_spec split: prod.splits)

lemma finished_threads:
  assumes "parseTrace B d = Inr m" "(pk, p) \<in> set (processes m)" "(tk, t) \<in> set (threads p)"
  shows "\<exists>t0. t = finish_thread t0"
proof -
  from assms(1) obtain m0 where "m = finish_model m0"
    by (auto simp: parseTrace_def split: sum.splits)
  with assms(2) obtain p0 where "p = finish_process p0"
    by (auto simp: finish_model_def)
  with assms(3) show ?thesis by (auto simp: finish_process_def)
qed


text \<open>
  C1.  The depth pass of \<open>parseTrace\<close> is the pass the specification describes, run
  over the sorted event list of the thread.  For every thread of a returned model, the
  depths of its events and its \<open>maxDepth\<close> are exactly what that pass assigns on the
  thread's event list.  On the input of the first scenario A has depth 0, B has depth 1
  and \<open>maxDepth\<close> is 1; the two siblings of the second scenario both have depth 0.
\<close>

theorem depth_pass_as_specified:
  "finish_thread t0 =
     t0\<lparr>events := fst (spec_depth_pass [] 0 (array_sort by_ts (events t0))),
        maxDepth := Some (snd (spec_depth_pass [] 0 (array_sort by_ts (events t0))))\<rparr> \<and>
   (parseTrace B d = Inr m \<and> (pk, p) \<in> set (processes m) \<and> (tk, t) \<in> set (threads p) \<longrightarrow>
      (events t, maxDepth t) =
      (fst (spec_depth_pass [] 0 (events t)), Some (snd (spec_depth_pass [] 0 (events t))))) \<and>
   parseTrace B (JArr [complete_event ''A'' 0 100, complete_event ''B'' 10 20]) =
     Inr (one_thread_model B [stored_complete ''A'' 0 100 0, stored_complete ''B'' 10 20 1] 1
            (Fin 0) (Fin 100)) \<and>
   parseTrace B (JArr [complete_event ''first'' 0 10, complete_event ''second'' 10 10]) =
     Inr (one_thread_model B [stored_complete ''first'' 0 10 0, stored_complete ''second'' 10 10 0] 0
            (Fin 0) (Fin 20))"
proof (intro conjI impI)
  show "finish_thread t0 =
     t0\<lparr>events := fst (spec_depth_pass [] 0 (array_sort by_ts (events t0))),
        maxDepth := Some (snd (spec_depth_pass [] 0 (array_sort by_ts (events t0))))\<rparr>"
    by (rule finish_thread_spec)
next
  assume "parseTrace B d = Inr m \<and> (pk, p) \<in> set (processes m) \<and> (tk, t) \<in> set (threads p)"
  then obtain t1 where "t = finish_thread t1" using finished_threads by blast
  then show "(events t, maxDepth t) =
      (fst (spec_depth_pass [] 0 (events t)), Some (snd (spec_depth_pass [] 0 (events t))))"
    by (simp add: finish_thread_spec spec_pass_again)
next
  show "parseTrace B (JArr [complete_event ''A'' 0 100, complete_event ''B'' 10 20]) =
     Inr (one_thread_model B [stored_complete ''A'' 0 100 0, stored_complete ''B'' 10 20 1] 1
            (Fin 0) (Fin 100))"
    by (simp add: parseTrace_def ingest_event_def read_event_def place_event_def
        get_or_create_process_def get_or_create_thread_def route_event_def finish_model_def
        finish_process_def finish_thread_def empty_model_def end_time_def truthy_num_def
        num_le_def num_gt_def num_sub_def by_ts_def splice1_def complete_event_def stored_complete_def
        one_thread_model_def Let_def numeral_2_eq_2)
next
  show "parseTrace B (JArr [complete_event ''first'' 0 10, complete_event ''second'' 10 10]) =
     Inr (one_thread_model B [stored_complete ''first'' 0 10 0, stored_complete ''second'' 10 10 0] 0
            (Fin 0) (Fin 20))"
    by (simp add: parseTrace_def ingest_event_def read_event_def place_event_def
        get_or_create_process_def get_or_create_thread_def route_event_def finish_model_def
        finish_process_def finish_thread_def empty_model_def end_time_def truthy_num_def
        num_le_def num_gt_def num_sub_def by_ts_def splice1_def complete_event_def stored_complete_def
        one_thread_model_def Let_def numeral_2_eq_2)
qed

theorem depth_pass_as_specified_witness:
  "parseTrace example_builtins (JArr [complete_event ''A'' 0 100, complete_event ''B'' 10 20]) =
     Inr (one_thread_model example_builtins
            [stored_complete ''A'' 0 100 0, stored_complete ''B'' 10 20 1] 1 (Fin 0) (Fin 100)) \<and>
   ([stored_complete ''A'' 0 100 0, stored_complete ''B'' 10 20 1], Some (1::nat)) =
     (fst (spec_depth_pass [] 0 [stored_complete ''A'' 0 100 0, stored_complete ''B'' 10 20 1]),
      Some (snd (spec_depth_pass [] 0 [stored_complete ''A'' 0 100 0, stored_complete ''B'' 10 20 1])))"
  using depth_pass_as_specified[of _ example_builtins
      "JArr [complete_event ''A'' 0 100, complete_event ''B'' 10 20]"
      "one_thread_model example_builtins
         [stored_complete ''A'' 0 100 0, stored_complete ''B'' 10 20 1] 1 (Fin 0) (Fin 100)"
      "Some (JNum (Fin 1))"
      "\<lparr>process_pid = Some (JNum (Fin 1)),
        process_name = JStr (''Process '' @ NumberToString example_builtins (Fin 1)),
        threads =
          [(Some (JNum (Fin 1)),
            \<lparr>thread_tid = Some (JNum (Fin 1)),
             thread_name = JStr (''Thread '' @ NumberToString example_builtins (Fin 1)),
             events = [stored_complete ''A'' 0 100 0, stored_complete ''B'' 10 20 1],
             maxDepth = Some 1\<rparr>)]\<rparr>"
      "Some (JNum (Fin 1))"
      "\<lparr>thread_tid = Some (JNum (Fin 1)),
        thread_name = JStr (''Thread '' @ NumberToString example_builtins (Fin 1)),
        events = [stored_complete ''A'' 0 100 0, stored_complete ''B'' 10 20 1],
        maxDepth = Some 1\<rparr>"]
  by (simp add: one_thread_model_def)

section \<open>Threads of the model, one step at a time\<close>

lemma each_threadD:
  "each_thread R ps \<Longrightarrow> (pk, p) \<in> set ps \<Longrightarrow> (tk, t) \<in> set (threads p) \<Longrightarrow>
   R pk tk (events t)"
  by (auto simp: each_thread_def)

lemma each_thread_mono:
  "each_thread R ps \<Longrightarrow> (\<And>pk tk es. R pk tk es \<Longrightarrow> R' pk tk es) \<Longrightarrow> each_thread R' ps"
  by (fastforce simp: each_thread_def)

lemma got_process:
  assumes "get_or_create_process B ps k = Inr p"
  shows "(k, p) \<in> set ps \<or> threads p = []"
proof (cases "map_get ps k")
  case None
  with assms show ?thesis by (auto simp: get_or_create_process_def split: sum.splits)
next
  case (Some a)
  with assms show ?thesis by (auto simp: get_or_create_process_def dest: map_get_mem)
qed

lemma got_thread:
  assumes "get_or_create_thread B ths k = Inr t"
  shows "(k, t) \<in> set ths \<or> events t = []"
proof (cases "map_get ths k")
  case None
  with assms show ?thesis by (auto simp: get_or_create_thread_def split: sum.splits)
next
  case (Some a)
  with assms show ?thesis by (auto simp: get_or_create_thread_def dest: map_get_mem)
qed

lemma place_event_each_thread:
  assumes step: "place_event B m e = Inr m'"
    and old: "each_thread R (processes m)"
    and mono: "\<And>pk tk es. R pk tk es \<Longrightarrow> R' pk tk es"
    and new: "\<And>es. es = [] \<or> R (pid e) (tid e) es \<Longrightarrow>
                R' (pid e) (tid e) (if is_metadata e then es else es @ [e])"
  shows "each_thread R' (processes m')"
proof -
  from step obtain p t p' t' where
    p: "get_or_create_process B (processes m) (pid e) = Inr p" and
    t: "get_or_create_thread B (threads p) (tid e) = Inr t" and
    r: "route_event e p t = (p', t')" and
    m': "processes m' =
       map_set (pid e) (p'\<lparr>threads := map_set (tid e) t' (threads p)\<rparr>) (processes m)"
    by (rule place_event_shape)
  have ev: "events t' = (if is_metadata e then events t else events t @ [e])"
    using r by (simp add: route_event_shape)
  have inp: "\<And>tk tx. (tk, tx) \<in> set (threads p) \<Longrightarrow> R (pid e) tk (events tx)"
    using got_process[OF p] old by (auto dest: each_threadD)
  have "events t = [] \<or> R (pid e) (tid e) (events t)"
    using got_thread[OF t] inp by auto
  from new[OF this] have t'_ok: "R' (pid e) (tid e) (events t')" by (simp add: ev)
  show ?thesis unfolding each_thread_def
  proof (intro ballI, clarify)
    fix pk px tk tx
    assume a: "(pk, px) \<in> set (processes m')" "(tk, tx) \<in> set (threads px)"
    from a(1) m' consider "(pk, px) \<in> set (processes m)"
      | "pk = pid e" "px = p'\<lparr>threads := map_set (tid e) t' (threads p)\<rparr>"
      using map_set_mem[of pk px] by metis
    then show "R' pk tk (events tx)"
    proof cases
      case 1
      with a(2) old mono show ?thesis by (auto dest: each_threadD)
    next
      case 2
      with a(2) have "(tk, tx) \<in> set (map_set (tid e) t' (threads p))" by simp
      then consider "(tk, tx) \<in> set (threads p)" | "tk = tid e" "tx = t'"
        using map_set_mem[of tk tx] by metis
      then show ?thesis
      proof cases
        case 1
        with inp mono 2 show ?thesis by auto
      next
        case 2
        with t'_ok \<open>pk = pid e\<close> show ?thesis by simp
      qed
    qed
  qed
qed

lemma finished_thread_origin:
  assumes "(pk, p) \<in> set (processes (finish_model m))" "(tk, t) \<in> set (threads p)"
  shows "\<exists>p0 t0. (pk, p0) \<in> set (processes m) \<and> (tk, t0) \<in> set (threads p0) \<and>
           t = finish_thread t0"
proof -
  from assms(1) obtain p0 where p0: "(pk, p0) \<in> set (processes m)" "p = finish_process p0"
    by (auto simp: finish_model_def)
  with assms(2) obtain t0 where "(tk, t0) \<in> set (threads p0)" "t = finish_thread t0"
    by (auto simp: finish_process_def)
  with p0 show ?thesis by blast
qed


section \<open>C4: the sort of a thread's events\<close>

lemma num_sub_gt: "a \<noteq> NaN \<Longrightarrow> b \<noteq> NaN \<Longrightarrow> num_gt (num_sub a b) (Fin 0) = num_lt b a"
  by (cases a; cases b) (auto simp: num_sub_def num_gt_def)

lemma num_sub_self: "\<not> num_gt (num_sub a a) (Fin 0)"
  by (cases a) (auto simp: num_sub_def num_gt_def)

lemma num_lt_trans: "num_lt a b \<Longrightarrow> num_lt b c \<Longrightarrow> num_lt a c"
  by (cases a; cases b; cases c) auto

lemma num_le_trans: "num_le a b \<Longrightarrow> num_le b c \<Longrightarrow> num_le a c"
  by (auto simp: num_le_def dest: num_lt_trans)

lemma num_lt_le: "num_lt a b \<Longrightarrow> num_le a b"
  by (cases a; cases b) (auto simp: num_le_def)

lemma num_not_lt_le: "a \<noteq> NaN \<Longrightarrow> b \<noteq> NaN \<Longrightarrow> \<not> num_lt b a \<Longrightarrow> num_le a b"
  by (cases a; cases b) (auto simp: num_le_def)

lemma set_insert_sorted: "set (insert_sorted cmp x ys) = insert x (set ys)"
  by (induction ys) auto

lemma set_array_sort: "set (array_sort cmp xs) = set xs"
  by (induction xs) (auto simp: set_insert_sorted)

lemma sorted_insert_sorted:
  assumes "sorted_wrt (\<lambda>a b. num_le (ts a) (ts b)) ys" "ts x \<noteq> NaN" "\<forall>y \<in> set ys. ts y \<noteq> NaN"
  shows "sorted_wrt (\<lambda>a b. num_le (ts a) (ts b)) (insert_sorted by_ts x ys)"
  using assms
proof (induction ys)
  case Nil
  then show ?case by simp
next
  case (Cons y ys)
  show ?case
  proof (cases "num_gt (by_ts x y) (Fin 0)")
    case True
    with Cons.prems have "num_lt (ts y) (ts x)" by (simp add: by_ts_def num_sub_gt)
    then have "num_le (ts y) (ts x)" by (rule num_lt_le)
    with True Cons show ?thesis by (auto simp: set_insert_sorted)
  next
    case False
    with Cons.prems have "\<not> num_lt (ts y) (ts x)" by (simp add: by_ts_def num_sub_gt)
    with Cons.prems have xy: "num_le (ts x) (ts y)" by (simp add: num_not_lt_le)
    with Cons.prems have "\<forall>z \<in> set ys. num_le (ts x) (ts z)"
      by (auto intro: num_le_trans)
    with False xy Cons.prems show ?thesis by simp
  qed
qed

lemma sorted_array_sort:
  "\<forall>e \<in> set xs. ts e \<noteq> NaN \<Longrightarrow>
   sorted_wrt (\<lambda>a b. num_le (ts a) (ts b)) (array_sort by_ts xs)"
  by (induction xs) (simp_all add: sorted_insert_sorted set_array_sort)

lemma stable_insert_sorted:
  "filter (\<lambda>e. ts e = k) (insert_sorted by_ts x ys) = filter (\<lambda>e. ts e = k) (x # ys)"
proof (induction ys)
  case Nil
  then show ?case by simp
next
  case (Cons y ys)
  show ?case
  proof (cases "num_gt (by_ts x y) (Fin 0)")
    case True
    then have "ts x \<noteq> ts y" using num_sub_self[of "ts y"] by (auto simp: by_ts_def)
    with True Cons show ?thesis by auto
  next
    case False
    then show ?thesis by simp
  qed
qed

lemma stable_array_sort:
  "filter (\<lambda>e. ts e = k) (array_sort by_ts xs) = filter (\<lambda>e. ts e = k) xs"
  by (induction xs) (simp_all add: stable_insert_sorted)

lemma undepth_ts: "ts (undepth e) = ts e"
  by (simp add: undepth_def)

lemma map_ts_undepth: "map undepth xs = map undepth ys \<Longrightarrow> map ts xs = map ts ys"
proof -
  assume "map undepth xs = map undepth ys"
  then have "map ts (map undepth xs) = map ts (map undepth ys)" by simp
  then show ?thesis by (simp add: o_def undepth_ts)
qed

lemma filter_ts_undepth:
  "map undepth (filter (\<lambda>e. ts e = k) xs) = filter (\<lambda>e. ts e = k) (map undepth xs)"
  by (induction xs) (simp_all add: undepth_ts)

lemma finish_thread_events:
  "map undepth (events (finish_thread t)) = map undepth (array_sort by_ts (events t))"
  by (simp add: finish_thread_spec spec_pass_out)

lemma stored_of_undepth: "map undepth (stored_of B r) = stored_of B r"
  by (auto simp: stored_of_def read_event_def undepth_def split: sum.splits option.splits
      if_splits)

lemma stored_input_undepth: "map undepth (stored_input B xs) = stored_input B xs"
  by (induction xs) (simp_all add: stored_of_undepth)

lemma ingest_event_subseq:
  assumes "ingest_event B m r = Inr m'"
    and "each_thread (\<lambda>pk tk es. subseq es S) (processes m)"
  shows "each_thread (\<lambda>pk tk es. subseq es (S @ stored_of B r)) (processes m')"
proof (cases "read_event B r")
  case (Inl a)
  with assms show ?thesis by (simp add: ingest_event_def)
next
  case (Inr o1)
  show ?thesis
  proof (cases o1)
    case None
    with Inr assms show ?thesis by (simp add: ingest_event_def stored_of_def)
  next
    case (Some e)
    with Inr assms have pl: "place_event B m e = Inr m'" by (simp add: ingest_event_def)
    from Inr Some have st: "stored_of B r = (if is_metadata e then [] else [e])"
      by (simp add: stored_of_def)
    show ?thesis
    proof (rule place_event_each_thread[OF pl assms(2)])
      fix pk tk :: jsval and es :: "trace_event list"
      assume "subseq es S"
      then show "subseq es (S @ stored_of B r)" by (rule subseq_rev_drop_many)
    next
      fix es :: "trace_event list"
      assume "es = [] \<or> subseq es S"
      then have "subseq es S" by auto
      then show "subseq (if is_metadata e then es else es @ [e]) (S @ stored_of B r)"
        by (simp add: st list_emb_append_mono)
    qed
  qed
qed

lemma ingest_all_subseq:
  "ingest_all B m xs = Inr m' \<Longrightarrow> each_thread (\<lambda>pk tk es. subseq es S) (processes m) \<Longrightarrow>
   each_thread (\<lambda>pk tk es. subseq es (S @ stored_input B xs)) (processes m')"
proof (induction xs arbitrary: m S)
  case Nil
  then show ?case by simp
next
  case (Cons r xs)
  from Cons.prems(1) obtain m1 where
    m1: "ingest_event B m r = Inr m1" and rest: "ingest_all B m1 xs = Inr m'"
    by (auto split: sum.splits)
  from Cons.IH[OF rest ingest_event_subseq[OF m1 Cons.prems(2)]] show ?case by simp
qed


lemma parse_steps:
  assumes "parseTrace B d = Inr m" "events_of d = Inr xs"
  obtains m0 where "ingest_all B empty_model xs = Inr m0" "m = finish_model m0"
  using assms by (auto simp: parseTrace_def split: sum.splits)

text \<open>
  C4, the claim as stated: the event list of every thread of every returned model is
  sorted by start time.  A record without \<open>ts\<close> is stored with the start time NaN,
  which is in order with no number, so no arrangement of a thread that holds it next to
  a timed event is sorted.  In the sort NaN compares as equal to every start time: below,
  the thread keeps the input order, and an event that starts at 5 stands before one
  that starts at 1, with the untimed event between them.
\<close>

theorem unsorted_thread_counterexample:
  "parseTrace example_builtins
     (JArr [JObj [(''name'', JStr ''late''), (''ts'', JNum (Fin 5)), (''pid'', JNum (Fin 1)),
                  (''tid'', JNum (Fin 1))],
            JObj [(''name'', JStr ''untimed''), (''pid'', JNum (Fin 1)), (''tid'', JNum (Fin 1))],
            JObj [(''name'', JStr ''early''), (''ts'', JNum (Fin 1)), (''pid'', JNum (Fin 1)),
                  (''tid'', JNum (Fin 1))]]) =
   Inr (one_thread_model example_builtins
          [\<lparr>name = Some (JStr ''late''), cat = None, ph = None, ts = Fin 5,
            pid = Some (JNum (Fin 1)), tid = Some (JNum (Fin 1)), dur = Fin 0, args = None,
            ident = None, depth = Some 0\<rparr>,
           \<lparr>name = Some (JStr ''untimed''), cat = None, ph = None, ts = NaN,
            pid = Some (JNum (Fin 1)), tid = Some (JNum (Fin 1)), dur = Fin 0, args = None,
            ident = None, depth = Some 1\<rparr>,
           \<lparr>name = Some (JStr ''early''), cat = None, ph = None, ts = Fin 1,
            pid = Some (JNum (Fin 1)), tid = Some (JNum (Fin 1)), dur = Fin 0, args = None,
            ident = None, depth = Some 2\<rparr>]
          2 (Fin 1) (Fin 5)) \<and>
   \<not> num_le (Fin 5) NaN \<and> \<not> num_le NaN (Fin 1) \<and> \<not> num_le (Fin 5) (Fin 1)"
  by (simp add: parseTrace_def ingest_event_def read_event_def place_event_def
      get_or_create_process_def get_or_create_thread_def route_event_def finish_model_def
      finish_process_def finish_thread_def empty_model_def end_time_def truthy_num_def
      num_le_def num_gt_def num_sub_def by_ts_def splice1_def one_thread_model_def
      example_builtins_def Let_def numeral_2_eq_2 numeral_3_eq_3)

text \<open>
  C4, as amended.  In every thread of a returned model whose events all have a start
  time other than NaN, the event list is sorted non-decreasing by start time, and the
  events of equal start time stand in the order in which the input has them: erasing
  the depths, they are a subsequence of the stored records of the input.
\<close>

theorem thread_events_sorted_stable:
  assumes "parseTrace B d = Inr m" "events_of d = Inr xs"
    and "(pk, p) \<in> set (processes m)" "(tk, t) \<in> set (threads p)"
    and "\<forall>e \<in> set (events t). ts e \<noteq> NaN"
  shows "sorted_wrt (\<lambda>a b. num_le (ts a) (ts b)) (events t) \<and>
         subseq (map undepth (filter (\<lambda>e. ts e = k) (events t))) (stored_input B xs)"
proof
  from assms(1,2) obtain m0 where
    m0: "ingest_all B empty_model xs = Inr m0" "m = finish_model m0"
    by (rule parse_steps)
  with assms(3,4) obtain p0 t0 where
    t0: "(pk, p0) \<in> set (processes m0)" "(tk, t0) \<in> set (threads p0)" "t = finish_thread t0"
    using finished_thread_origin by blast
  let ?s = "array_sort by_ts (events t0)"
  have und: "map undepth (events t) = map undepth ?s"
    using t0(3) by (simp add: finish_thread_events)
  then have tss: "map ts (events t) = map ts ?s" by (rule map_ts_undepth)
  have "NaN \<notin> set (map ts (events t))" using assms(5) by auto
  with tss have "NaN \<notin> set (map ts ?s)" by simp
  then have "\<forall>e \<in> set (?s). ts e \<noteq> NaN" by (metis image_eqI set_map)
  then have "\<forall>e \<in> set (events t0). ts e \<noteq> NaN" by (simp add: set_array_sort)
  then have "sorted_wrt (\<lambda>a b. num_le (ts a) (ts b)) ?s" by (rule sorted_array_sort)
  then have "sorted_wrt num_le (map ts ?s)" by (simp add: sorted_wrt_map)
  then have "sorted_wrt num_le (map ts (events t))" by (simp add: tss)
  then show "sorted_wrt (\<lambda>a b. num_le (ts a) (ts b)) (events t)" by (simp add: sorted_wrt_map)
  have "each_thread (\<lambda>pk tk es. subseq es []) (processes empty_model)"
    by (simp add: each_thread_def empty_model_def)
  from ingest_all_subseq[OF m0(1) this] t0(1,2) have "subseq (events t0) (stored_input B xs)"
    by (auto dest: each_threadD)
  moreover have "subseq (filter (\<lambda>e. ts e = k) (events t0)) (events t0)" by simp
  ultimately have "subseq (filter (\<lambda>e. ts e = k) (events t0)) (stored_input B xs)"
    by (rule subseq_order.order_trans[rotated])
  then have "subseq (map undepth (filter (\<lambda>e. ts e = k) (events t0)))
               (map undepth (stored_input B xs))"
    by (rule subseq_map)
  moreover have "map undepth (filter (\<lambda>e. ts e = k) (events t)) =
                 map undepth (filter (\<lambda>e. ts e = k) (events t0))"
    by (simp only: filter_ts_undepth und)
      (simp only: filter_ts_undepth[symmetric] stable_array_sort)
  ultimately show "subseq (map undepth (filter (\<lambda>e. ts e = k) (events t))) (stored_input B xs)"
    by (simp add: stored_input_undepth)
qed

theorem thread_events_sorted_stable_witness:
  "parseTrace example_builtins (JArr [complete_event ''x'' 0 10, complete_event ''y'' 0 5]) =
     Inr (one_thread_model example_builtins
            [stored_complete ''x'' 0 10 0, stored_complete ''y'' 0 5 1] 1 (Fin 0) (Fin 10)) \<and>
   sorted_wrt (\<lambda>a b. num_le (ts a) (ts b))
     [stored_complete ''x'' 0 10 0, stored_complete ''y'' 0 5 1] \<and>
   subseq (map undepth (filter (\<lambda>e. ts e = Fin 0)
             [stored_complete ''x'' 0 10 0, stored_complete ''y'' 0 5 1]))
     (stored_input example_builtins [complete_event ''x'' 0 10, complete_event ''y'' 0 5])"
proof -
  have P: "parseTrace example_builtins
      (JArr [complete_event ''x'' 0 10, complete_event ''y'' 0 5]) =
     Inr (one_thread_model example_builtins
            [stored_complete ''x'' 0 10 0, stored_complete ''y'' 0 5 1] 1 (Fin 0) (Fin 10))"
    by (simp add: parseTrace_def ingest_event_def read_event_def place_event_def
        get_or_create_process_def get_or_create_thread_def route_event_def finish_model_def
        finish_process_def finish_thread_def empty_model_def end_time_def truthy_num_def
        num_le_def num_gt_def num_sub_def by_ts_def splice1_def complete_event_def
        stored_complete_def one_thread_model_def Let_def)
  from thread_events_sorted_stable[OF P, of
      "[complete_event ''x'' 0 10, complete_event ''y'' 0 5]"
      "Some (JNum (Fin 1))"
      "\<lparr>process_pid = Some (JNum (Fin 1)),
        process_name = JStr (''Process '' @ NumberToString example_builtins (Fin 1)),
        threads =
          [(Some (JNum (Fin 1)),
            \<lparr>thread_tid = Some (JNum (Fin 1)),
             thread_name = JStr (''Thread '' @ NumberToString example_builtins (Fin 1)),
             events = [stored_complete ''x'' 0 10 0, stored_complete ''y'' 0 5 1],
             maxDepth = Some 1\<rparr>)]\<rparr>"
      "Some (JNum (Fin 1))"
      "\<lparr>thread_tid = Some (JNum (Fin 1)),
        thread_name = JStr (''Thread '' @ NumberToString example_builtins (Fin 1)),
        events = [stored_complete ''x'' 0 10 0, stored_complete ''y'' 0 5 1],
        maxDepth = Some 1\<rparr>"
      "Fin 0"]
  have "sorted_wrt (\<lambda>a b. num_le (ts a) (ts b))
     [stored_complete ''x'' 0 10 0, stored_complete ''y'' 0 5 1] \<and>
   subseq (map undepth (filter (\<lambda>e. ts e = Fin 0)
             [stored_complete ''x'' 0 10 0, stored_complete ''y'' 0 5 1]))
     (stored_input example_builtins [complete_event ''x'' 0 10, complete_event ''y'' 0 5])"
    by (simp add: one_thread_model_def stored_complete_def)
  with P show ?thesis by simp
qed

section \<open>C5: the time bounds of the model\<close>













section \<open>C2: where a record goes\<close>

lemma ingest_all_at_home:
  "ingest_all B m xs = Inr m' \<Longrightarrow>
   each_thread (\<lambda>pk tk es. \<forall>x \<in> set es. at_home pk tk x) (processes m) \<Longrightarrow>
   each_thread (\<lambda>pk tk es. \<forall>x \<in> set es. at_home pk tk x) (processes m')"
proof (induction xs arbitrary: m)
  case Nil
  then show ?case by simp
next
  case (Cons r xs)
  from Cons.prems(1) obtain m1 where
    m1: "ingest_event B m r = Inr m1" and rest: "ingest_all B m1 xs = Inr m'"
    by (auto split: sum.splits)
  have "each_thread (\<lambda>pk tk es. \<forall>x \<in> set es. at_home pk tk x) (processes m1)"
  proof (cases "read_event B r")
    case (Inl a)
    with m1 show ?thesis by (simp add: ingest_event_def)
  next
    case (Inr o1)
    show ?thesis
    proof (cases o1)
      case None
      with Inr m1 Cons.prems show ?thesis by (simp add: ingest_event_def)
    next
      case (Some e)
      with Inr m1 have pl: "place_event B m e = Inr m1" by (simp add: ingest_event_def)
      show ?thesis
        by (rule place_event_each_thread[OF pl Cons.prems(2)]) (auto simp: at_home_def)
    qed
  qed
  with Cons.IH[OF rest] show ?case by simp
qed

lemma at_home_undepth: "at_home pk tk (undepth e) = at_home pk tk e"
  by (simp add: at_home_def undepth_def is_metadata_def)

lemma finish_thread_mset:
  "mset (map undepth (events (finish_thread t))) = mset (map undepth (events t))"
proof -
  have "mset (array_sort cmp xs) = mset xs" for cmp and xs :: "trace_event list"
  proof (induction xs)
    case Nil
    then show ?case by simp
  next
    case (Cons x xs)
    have "mset (insert_sorted cmp x ys) = add_mset x (mset ys)" for ys
      by (induction ys) simp_all
    with Cons show ?case by simp
  qed
  then have "mset (array_sort by_ts (events t)) = mset (events t)" .
  then have "image_mset undepth (mset (array_sort by_ts (events t))) =
             image_mset undepth (mset (events t))" by simp
  then show ?thesis by (simp only: finish_thread_events mset_map)
qed

lemma finish_threads_mset:
  "mset (map undepth (thread_events (map (\<lambda>(k, t). (k, finish_thread t)) ths))) =
   mset (map undepth (thread_events ths))"
  using finish_thread_mset by (induction ths) (auto simp del: mset_map)

lemma finish_processes_mset:
  "mset (map undepth (process_events (map (\<lambda>(k, p). (k, finish_process p)) ps))) =
   mset (map undepth (process_events ps))"
  using finish_threads_mset by (induction ps) (auto simp del: mset_map simp: finish_process_def)

lemma finish_model_mset:
  "mset (map undepth (all_events (finish_model m))) = mset (map undepth (all_events m))"
  using finish_processes_mset by (simp del: mset_map add: all_events_def finish_model_def)

lemma stored_events_mset:
  assumes "parseTrace B d = Inr m" "events_of d = Inr xs"
  shows "mset (map undepth (all_events m)) = mset (stored_input B xs)"
proof -
  from assms obtain m0 where
    m0: "ingest_all B empty_model xs = Inr m0" "m = finish_model m0"
    by (rule parse_steps)
  from ingest_all_mset[OF m0(1)] have "mset (all_events m0) = mset (stored_input B xs)"
    by (simp add: all_events_def empty_model_def)
  then have "mset (map undepth (all_events m0)) = mset (map undepth (stored_input B xs))"
    by (metis mset_map)
  then show ?thesis
    using finish_model_mset[of m0] by (simp del: mset_map add: m0(2) stored_input_undepth)
qed

lemma stored_events_at_home:
  assumes "parseTrace B d = Inr m"
    and "(pk, p) \<in> set (processes m)" "(tk, t) \<in> set (threads p)" "e \<in> set (events t)"
  shows "at_home pk tk e"
proof -
  from assms(1) obtain xs m0 where
    m0: "ingest_all B empty_model xs = Inr m0" "m = finish_model m0"
    by (auto simp: parseTrace_def split: sum.splits)
  with assms(2,3) obtain p0 t0 where
    t0: "(pk, p0) \<in> set (processes m0)" "(tk, t0) \<in> set (threads p0)" "t = finish_thread t0"
    using finished_thread_origin by blast
  have "each_thread (\<lambda>pk tk es. \<forall>x \<in> set es. at_home pk tk x) (processes m0)"
    by (rule ingest_all_at_home[OF m0(1)]) (simp add: empty_model_def each_thread_def)
  with t0(1,2) have b0: "\<forall>x \<in> set (events t0). at_home pk tk x"
    by (auto dest: each_threadD)
  from assms(4) have "undepth e \<in> set (map undepth (events t))" by simp
  then have "undepth e \<in> set (map undepth (array_sort by_ts (events t0)))"
    by (simp only: t0(3) finish_thread_events)
  then obtain e0 where "e0 \<in> set (events t0)" "undepth e0 = undepth e"
    by (auto simp: set_array_sort)
  with b0 show ?thesis by (metis at_home_undepth)
qed

lemma metadata_step:
  assumes "read_event B r = Inr (Some e)" "is_metadata e" "ingest_event B m0 r = Inr m1"
  shows "mset (all_events m1) = mset (all_events m0)"
proof -
  from assms(1,3) have "place_event B m0 e = Inr m1" by (simp add: ingest_event_def)
  from place_event_mset[OF this] assms(2) show ?thesis by simp
qed

lemma naming_step:
  assumes "read_event B r = Inr (Some e)" "is_metadata e" "naming_value e = Some v"
    and "ingest_event B m0 r = Inr m1"
  shows "name e = Some (JStr ''process_name'') \<Longrightarrow>
           \<exists>p1. (pid e, p1) \<in> set (processes m1) \<and> process_name p1 = v"
    and "name e = Some (JStr ''thread_name'') \<Longrightarrow>
           \<exists>p1 t1. (pid e, p1) \<in> set (processes m1) \<and> (tid e, t1) \<in> set (threads p1) \<and>
             thread_name t1 = v"
proof -
  from assms(1,4) have pl: "place_event B m0 e = Inr m1" by (simp add: ingest_event_def)
  from pl obtain p t p' t' where
    r: "route_event e p t = (p', t')" and
    m1: "processes m1 =
       map_set (pid e) (p'\<lparr>threads := map_set (tid e) t' (threads p)\<rparr>) (processes m0)"
    by (rule place_event_shape)
  let ?p = "p'\<lparr>threads := map_set (tid e) t' (threads p)\<rparr>"
  have in1: "(pid e, ?p) \<in> set (processes m1)" unfolding m1 by (rule map_set_has)
  have in2: "(tid e, t') \<in> set (threads ?p)" by (simp add: map_set_has)
  show "\<exists>p1. (pid e, p1) \<in> set (processes m1) \<and> process_name p1 = v"
    if "name e = Some (JStr ''process_name'')"
  proof -
    from r that assms(2,3) have "process_name ?p = v"
      by (auto simp: route_event_def is_metadata_def)
    with in1 show ?thesis by blast
  qed
  show "\<exists>p1 t1. (pid e, p1) \<in> set (processes m1) \<and> (tid e, t1) \<in> set (threads p1) \<and>
             thread_name t1 = v"
    if "name e = Some (JStr ''thread_name'')"
  proof -
    from r that assms(2,3) have "thread_name t' = v"
      by (auto simp: route_event_def is_metadata_def)
    with in1 in2 show ?thesis by blast
  qed
qed


text \<open>
  C2, the claim as stated: every non-skipped record that is not a recognized naming
  event with an \<open>args.name\<close> string is appended to the event list of its thread, and
  a recognized naming event with an \<open>args.name\<close> string sets the display name.  The
  first record below has Metadata phase and is no naming event, the second is a
  \<open>process_name\<close> event whose \<open>args.name\<close> is the empty string; neither is
  skipped.  The thread ends with no event and the process keeps its default name.
\<close>

theorem metadata_not_appended_counterexample:
  "parseTrace example_builtins
     (JArr [JObj [(''name'', JStr ''process_sort_index''), (''ph'', JStr ''M''),
                  (''pid'', JNum (Fin 1)), (''tid'', JNum (Fin 1)),
                  (''args'', JObj [(''sort_index'', JNum (Fin 2))])],
            JObj [(''name'', JStr ''process_name''), (''ph'', JStr ''M''),
                  (''pid'', JNum (Fin 1)), (''tid'', JNum (Fin 1)),
                  (''args'', JObj [(''name'', JStr [])])]]) =
   Inr (one_thread_model example_builtins [] 0 PosInf NegInf) \<and>
   \<not> skipped (JObj [(''name'', JStr ''process_sort_index''), (''ph'', JStr ''M''),
                  (''pid'', JNum (Fin 1)), (''tid'', JNum (Fin 1)),
                  (''args'', JObj [(''sort_index'', JNum (Fin 2))])]) \<and>
   \<not> skipped (JObj [(''name'', JStr ''process_name''), (''ph'', JStr ''M''),
                  (''pid'', JNum (Fin 1)), (''tid'', JNum (Fin 1)),
                  (''args'', JObj [(''name'', JStr [])])])"
  by (simp add: parseTrace_def ingest_event_def read_event_def place_event_def
      get_or_create_process_def get_or_create_thread_def route_event_def finish_model_def
      finish_process_def finish_thread_def empty_model_def end_time_def truthy_num_def
      num_le_def num_gt_def num_sub_def by_ts_def splice1_def one_thread_model_def
      naming_value_def skipped_def example_builtins_def Let_def)

text \<open>
  C2, as amended.  The events stored in a returned model are, up to their depths,
  exactly the records of the input that are neither skipped nor of Metadata phase, each
  once; every stored event stands in the thread of its own \<open>pid\<close> and \<open>tid\<close>,
  and none is of Metadata phase.  Ingesting a non-skipped record of Metadata phase
  leaves the stored events as they are; when its name is \<open>process_name\<close>
  (\<open>thread_name\<close>) and its \<open>args.name\<close> is truthy, the owning process (thread)
  has that value as its display name afterwards.
\<close>

theorem record_routing:
  "(parseTrace B d = Inr m \<and> events_of d = Inr xs \<longrightarrow>
      mset (map undepth (all_events m)) = mset (stored_input B xs)) \<and>
   (parseTrace B d = Inr m \<and> (pk, p) \<in> set (processes m) \<and> (tk, t) \<in> set (threads p) \<and>
    e \<in> set (events t) \<longrightarrow> pid e = pk \<and> tid e = tk \<and> \<not> is_metadata e) \<and>
   (read_event B r = Inr (Some ev) \<and> is_metadata ev \<and> ingest_event B m0 r = Inr m1 \<longrightarrow>
      mset (all_events m1) = mset (all_events m0) \<and>
      (name ev = Some (JStr ''process_name'') \<and> naming_value ev = Some v \<longrightarrow>
         (\<exists>p1. (pid ev, p1) \<in> set (processes m1) \<and> process_name p1 = v)) \<and>
      (name ev = Some (JStr ''thread_name'') \<and> naming_value ev = Some v \<longrightarrow>
         (\<exists>p1 t1. (pid ev, p1) \<in> set (processes m1) \<and> (tid ev, t1) \<in> set (threads p1) \<and>
            thread_name t1 = v)))"
proof (intro conjI impI)
  assume "parseTrace B d = Inr m \<and> events_of d = Inr xs"
  then show "mset (map undepth (all_events m)) = mset (stored_input B xs)"
    using stored_events_mset by blast
next
  assume a: "parseTrace B d = Inr m \<and> (pk, p) \<in> set (processes m) \<and>
    (tk, t) \<in> set (threads p) \<and> e \<in> set (events t)"
  then have "at_home pk tk e" using stored_events_at_home by blast
  then show "pid e = pk" "tid e = tk" "\<not> is_metadata e" by (simp_all add: at_home_def)
next
  assume a: "read_event B r = Inr (Some ev) \<and> is_metadata ev \<and> ingest_event B m0 r = Inr m1"
  then show "mset (all_events m1) = mset (all_events m0)" using metadata_step by blast
  {
    assume "name ev = Some (JStr ''process_name'') \<and> naming_value ev = Some v"
    with a show "\<exists>p1. (pid ev, p1) \<in> set (processes m1) \<and> process_name p1 = v"
      using naming_step(1)[of B r ev v m0 m1] by blast
  }
  {
    assume "name ev = Some (JStr ''thread_name'') \<and> naming_value ev = Some v"
    with a show "\<exists>p1 t1. (pid ev, p1) \<in> set (processes m1) \<and>
        (tid ev, t1) \<in> set (threads p1) \<and> thread_name t1 = v"
      using naming_step(2)[of B r ev v m0 m1] by blast
  }
qed


theorem record_routing_witness:
  "parseTrace example_builtins (JArr [renderer_record, complete_event ''A'' 0 100]) =
     Inr (renderer_model example_builtins) \<and>
   mset (map undepth (all_events (renderer_model example_builtins))) =
     mset (stored_input example_builtins [renderer_record, complete_event ''A'' 0 100]) \<and>
   pid (stored_complete ''A'' 0 100 0) = Some (JNum (Fin 1)) \<and>
   tid (stored_complete ''A'' 0 100 0) = Some (JNum (Fin 1)) \<and>
   \<not> is_metadata (stored_complete ''A'' 0 100 0) \<and>
   (\<exists>m1. ingest_event example_builtins empty_model renderer_record = Inr m1 \<and>
      mset (all_events m1) = mset (all_events empty_model) \<and>
      (\<exists>p1. (Some (JNum (Fin 1)), p1) \<in> set (processes m1) \<and>
         process_name p1 = JStr ''Renderer''))"
proof -
  let ?ev = "\<lparr>name = Some (JStr ''process_name''), cat = None, ph = Some (JStr ''M''),
     ts = NaN, pid = Some (JNum (Fin 1)), tid = Some (JNum (Fin 0)), dur = Fin 0,
     args = Some (JObj [(''name'', JStr ''Renderer'')]), ident = None, depth = None\<rparr>"
  let ?th1 = "\<lparr>thread_tid = Some (JNum (Fin 1)),
     thread_name = JStr (''Thread '' @ NumberToString example_builtins (Fin 1)),
     events = [stored_complete ''A'' 0 100 0], maxDepth = Some 0\<rparr>"
  let ?pr = "\<lparr>process_pid = Some (JNum (Fin 1)), process_name = JStr ''Renderer'',
     threads =
       [(Some (JNum (Fin 0)),
         \<lparr>thread_tid = Some (JNum (Fin 0)),
          thread_name = JStr (''Thread '' @ NumberToString example_builtins (Fin 0)),
          events = [], maxDepth = Some 0\<rparr>),
        (Some (JNum (Fin 1)), ?th1)]\<rparr>"
  have P: "parseTrace example_builtins (JArr [renderer_record, complete_event ''A'' 0 100]) =
     Inr (renderer_model example_builtins)"
    by (simp add: parseTrace_def ingest_event_def read_event_def place_event_def
        get_or_create_process_def get_or_create_thread_def route_event_def finish_model_def
        finish_process_def finish_thread_def empty_model_def end_time_def truthy_num_def
        num_le_def num_gt_def num_sub_def by_ts_def splice1_def complete_event_def
        stored_complete_def renderer_record_def renderer_model_def naming_value_def
        example_builtins_def Let_def)
  have R: "read_event example_builtins renderer_record = Inr (Some ?ev)"
    by (simp add: read_event_def renderer_record_def truthy_num_def)
  have "\<exists>m1. ingest_event example_builtins empty_model renderer_record = Inr m1"
    by (simp add: ingest_event_def R place_event_def get_or_create_process_def
        get_or_create_thread_def route_event_def naming_value_def empty_model_def Let_def)
  then obtain m1 where I: "ingest_event example_builtins empty_model renderer_record = Inr m1" ..
  note T = record_routing[of example_builtins
      "JArr [renderer_record, complete_event ''A'' 0 100]" "renderer_model example_builtins"
      "[renderer_record, complete_event ''A'' 0 100]"
      "Some (JNum (Fin 1))" ?pr "Some (JNum (Fin 1))" ?th1 "stored_complete ''A'' 0 100 0"
      renderer_record ?ev empty_model m1 "JStr ''Renderer''"]
  from T P have "mset (map undepth (all_events (renderer_model example_builtins))) =
     mset (stored_input example_builtins [renderer_record, complete_event ''A'' 0 100])"
    by simp
  moreover from T P have "pid (stored_complete ''A'' 0 100 0) = Some (JNum (Fin 1)) \<and>
   tid (stored_complete ''A'' 0 100 0) = Some (JNum (Fin 1)) \<and>
   \<not> is_metadata (stored_complete ''A'' 0 100 0)"
    by (simp add: renderer_model_def)
  moreover from T R I have "mset (all_events m1) = mset (all_events empty_model) \<and>
      (\<exists>p1. (Some (JNum (Fin 1)), p1) \<in> set (processes m1) \<and>
         process_name p1 = JStr ''Renderer'')"
    by (simp add: is_metadata_def naming_value_def)
  ultimately show ?thesis using P I by blast
qed


section \<open>C9: one layout for painting and for hit testing\<close>

lemma row_tops_simps [simp]:
  "row_tops [] = []"
  "row_tops ((r, y, p) # rows) = (r, y) # row_tops rows"
  "row_tops (rows @ rows') = row_tops rows @ row_tops rows'"
  by (simp_all add: row_tops_def)











text \<open>
  With exact additions the grid loop ends whenever the step is a positive number: on a
  window from \<open>a\<close> to \<open>b\<close> with \<open>a < b\<close> and a power of ten that is a positive
  number, \<open>drawGrid\<close> returns.
\<close>

lemma grid_lines_ends:
  assumes "0 < s"
  shows "\<exists>g. grid_lines num_add toPixel (Fin b) (Fin s) (Fin t) = Some g"
proof (induction "nat (\<lfloor>(b - t) / s\<rfloor> + 1)" arbitrary: t rule: less_induct)
  case less
  show ?case
  proof (cases "t \<le> b")
    case False
    then show ?thesis
      by (subst grid_lines.simps) (simp add: num_le_def)
  next
    case True
    with assms have "0 \<le> (b - t) / s" by simp
    then have nn: "0 \<le> \<lfloor>(b - t) / s\<rfloor>" by simp
    have "(b - (t + s)) / s = (b - t) / s - 1"
      using assms by (simp add: field_simps)
    then have "\<lfloor>(b - (t + s)) / s\<rfloor> = \<lfloor>(b - t) / s\<rfloor> - 1" by simp
    with nn have "nat (\<lfloor>(b - (t + s)) / s\<rfloor> + 1) < nat (\<lfloor>(b - t) / s\<rfloor> + 1)" by simp
    from less[OF this] obtain g
      where "grid_lines num_add toPixel (Fin b) (Fin s) (Fin (t + s)) = Some g" by blast
    then show ?thesis
      by (subst grid_lines.simps) simp
  qed
qed

lemma drawGrid_ends:
  assumes "double_add E = num_add"
    and "Math_pow E (Fin 10) (num_floor (Math_log10 E (Fin ((b - a) / 10)))) = Fin m"
    and "0 < m" and "a < b"
  shows "\<exists>g. drawGrid E (Fin a) (Fin b) height toPixel = Some g"
proof -
  define k where "k = of_int \<lceil>(b - a) / 10 / m\<rceil> * m"
  from assms(3,4) have "0 < (b - a) / 10 / m" by simp
  then have "0 < \<lceil>(b - a) / 10 / m\<rceil>" by (simp only: ceiling_less_iff less_ceiling_iff of_int_0)
  with assms(3) have pos: "0 < k" by (simp add: k_def)
  from assms(3) have m: "m \<noteq> 0" by simp
  have range: "num_div (num_sub (Fin b) (Fin a)) (Fin 10) = Fin ((b - a) / 10)"
    by (simp add: num_sub_def)
  have step: "num_mul (num_ceil (num_div (Fin ((b - a) / 10)) (Fin m))) (Fin m) = Fin k"
    using m by (simp add: k_def)
  have first: "num_mul (num_ceil (num_div (Fin a) (Fin k))) (Fin k) =
      Fin (of_int \<lceil>a / k\<rceil> * k)"
    using pos by simp
  have "drawGrid E (Fin a) (Fin b) height toPixel =
      grid_lines num_add toPixel (Fin b) (Fin k) (Fin (of_int \<lceil>a / k\<rceil> * k))"
    unfolding drawGrid_def Let_def range assms(1,2) step first ..
  with grid_lines_ends[OF pos] show ?thesis by simp
qed






end
